theory Spec2Isabelle
  imports Main "HOL-Library.Multiset"
begin

section \<open>The store: the three tables of config/database.js\<close>

text \<open>
  \<^verbatim>\<open>initializeDatabase\<close> creates three tables, and its schema is the one modelled here
  (no \<^verbatim>\<open>CHECK\<close> constraints). A row of \<^verbatim>\<open>snippets\<close> is a record, a row of \<^verbatim>\<open>tags\<close> is the
  pair (id, name), a row of \<^verbatim>\<open>snippet_tags\<close> is the pair (snippet_id, tag_id). Tables are lists in rowid order. The two \<^verbatim>\<open>AUTOINCREMENT\<close>
  counters (the table \<^verbatim>\<open>sqlite_sequence\<close>) are part of the database, so a rollback restores
  them too. \<^verbatim>\<open>created_at\<close> is the number of seconds that \<^verbatim>\<open>CURRENT_TIMESTAMP\<close> stands for.
  The write path always supplies a language (\<^verbatim>\<open>language || 'javascript'\<close>), so the column
  is a plain string here. Strings are byte lists; case folding is the ASCII one of SQLite.
\<close>

record snippet_row =
  s_id :: nat
  s_title :: string
  s_code :: string
  s_language :: string
  s_created_at :: nat

type_synonym tag_row = "nat \<times> string"

type_synonym link_row = "nat \<times> nat"

record database =
  snippets :: "snippet_row list"
  tags :: "tag_row list"
  snippet_tags :: "link_row list"
  snippets_seq :: nat
  tags_seq :: nat

text \<open>
  The constraints that the schema declares and SQLite always enforces: the primary keys,
  \<^verbatim>\<open>UNIQUE\<close> on the tag name, and the \<^verbatim>\<open>AUTOINCREMENT\<close> rule that no rowid exceeds its
  counter. A snippet id that was ever handed out stays below the counter, also after the
  row is deleted, so links left behind by a deleted snippet stay below it as well.
  Foreign keys are not part of it: they are enforced only on a connection that has
  run \<^verbatim>\<open>PRAGMA foreign_keys = ON\<close>.
\<close>

definition wf_db :: "database \<Rightarrow> bool" where
  "wf_db db \<longleftrightarrow>
     distinct (map s_id (snippets db)) \<and>
     list_all (\<lambda>s. s_id s \<le> snippets_seq db) (snippets db) \<and>
     distinct (map fst (tags db)) \<and>
     distinct (map snd (tags db)) \<and>
     list_all (\<lambda>t. fst t \<le> tags_seq db) (tags db) \<and>
     distinct (snippet_tags db) \<and>
     list_all (\<lambda>l. fst l \<le> snippets_seq db) (snippet_tags db)"

text \<open>An error object of the library: a constraint violation, a statement that cannot
  run in the state of the connection, or any other failure of the store (disk, lock,
  connectivity), which carries a number to tell two apart.\<close>

datatype sqlerr = SQLITE_CONSTRAINT string | SQLITE_ERROR string | SQLITE_FAILURE nat

section \<open>The read path: getAllSnippets\<close>

subsection \<open>LIKE\<close>

text \<open>
  SQLite's \<^verbatim>\<open>LIKE\<close> on two texts, the pattern first. Texts are UTF-8, as node-sqlite3 binds
  JavaScript strings. The function reads both operands as NUL-terminated: what follows
  the first NUL of the pattern or of the text is not looked at. \<^verbatim>\<open>%\<close> matches any run of
  characters and \<^verbatim>\<open>_\<close> one character, where a character is a byte with the continuation
  bytes that follow it; any other character of the pattern matches itself, up to the
  case of the ASCII letters. The texts that the library binds are well-formed UTF-8, and
  on those two characters are equal when their bytes are, so the model compares bytes.
  There is no escape character.
\<close>

definition lower :: "char \<Rightarrow> char" where
  "lower c = (let n = (of_char c :: nat) in if 65 \<le> n \<and> n \<le> 90 then char_of (n + 32) else c)"

definition is_cont :: "char \<Rightarrow> bool" where
  "is_cont c \<longleftrightarrow> 128 \<le> (of_char c :: nat) \<and> (of_char c :: nat) < 192"

fun skip_char :: "string \<Rightarrow> string" where
  "skip_char [] = []"
| "skip_char (c # cs) = (if 192 \<le> (of_char c :: nat) then dropWhile is_cont cs else cs)"

function like_text :: "string \<Rightarrow> string \<Rightarrow> bool" where
  "like_text [] t = (t = [])"
| "like_text (p # ps) [] = (p = CHR ''%'' \<and> like_text ps [])"
| "like_text (p # ps) (c # cs) =
     (if p = CHR ''%'' then like_text ps (c # cs) \<or> like_text (p # ps) (skip_char (c # cs))
      else if p = CHR ''_'' then like_text ps (skip_char (c # cs))
      else lower p = lower c \<and> like_text ps cs)"
  by pat_completeness auto
termination
proof (relation "measure (\<lambda>(p, t). length p + length t)")
  show "wf (measure (\<lambda>(p, t). length p + length t))" by simp
qed (auto simp: less_Suc_eq_le intro: le_trans [OF length_dropWhile_le])

definition until_nul :: "string \<Rightarrow> string" where
  "until_nul s = takeWhile (\<lambda>c. (of_char c :: nat) \<noteq> 0) s"

definition like :: "string \<Rightarrow> string \<Rightarrow> bool" where
  "like pat t = like_text (until_nul pat) (until_nul t)"

subsection \<open>The two LEFT JOINs\<close>

text \<open>
  \<^verbatim>\<open>FROM snippets s LEFT JOIN snippet_tags st ON s.id = st.snippet_id
       LEFT JOIN tags t ON st.tag_id = t.id\<close>:
  a joined row is kept as the snippet row with the value of \<^verbatim>\<open>t.name\<close>, \<open>None\<close> for NULL.
  A snippet without link rows gives one row with NULL; so does a link row whose tag is
  missing.
\<close>

definition join_tags :: "database \<Rightarrow> nat \<Rightarrow> string option list" where
  "join_tags db tid =
     (case filter (\<lambda>t. fst t = tid) (tags db) of
        [] \<Rightarrow> [None]
      | t # ts \<Rightarrow> map (\<lambda>t. Some (snd t)) (t # ts))"

definition join_links :: "database \<Rightarrow> nat \<Rightarrow> string option list" where
  "join_links db sid =
     (case filter (\<lambda>l. fst l = sid) (snippet_tags db) of
        [] \<Rightarrow> [None]
      | l # ls \<Rightarrow> concat (map (\<lambda>l. join_tags db (snd l)) (l # ls)))"

definition joined :: "database \<Rightarrow> (snippet_row \<times> string option) list" where
  "joined db = concat (map (\<lambda>s. map (Pair s) (join_links db (s_id s))) (snippets db))"

subsection \<open>WHERE, GROUP BY, GROUP_CONCAT, ORDER BY\<close>

text \<open>\<^verbatim>\<open>WHERE s.title LIKE ? OR s.code LIKE ? OR s.language LIKE ? OR t.name LIKE ?\<close>;
  \<^verbatim>\<open>NULL LIKE ?\<close> is NULL, which does not make the disjunction true.\<close>

definition where_like :: "string \<Rightarrow> snippet_row \<times> string option \<Rightarrow> bool" where
  "where_like pat r \<longleftrightarrow>
     like pat (s_title (fst r)) \<or> like pat (s_code (fst r)) \<or> like pat (s_language (fst r)) \<or>
     (case snd r of None \<Rightarrow> False | Some n \<Rightarrow> like pat n)"

text \<open>\<^verbatim>\<open>GROUP_CONCAT(t.name)\<close>: the non-NULL values joined with a comma, NULL when there is
  none. SQLite leaves the order open; the model takes the order of the joined rows.\<close>

fun non_null :: "'a option list \<Rightarrow> 'a list" where
  "non_null [] = []"
| "non_null (None # vs) = non_null vs"
| "non_null (Some v # vs) = v # non_null vs"

fun join_comma :: "string \<Rightarrow> string list \<Rightarrow> string" where
  "join_comma n [] = n"
| "join_comma n (m # ms) = n @ CHR '','' # join_comma m ms"

definition group_concat :: "string option list \<Rightarrow> string option" where
  "group_concat vs = (case non_null vs of [] \<Rightarrow> None | n # ns \<Rightarrow> Some (join_comma n ns))"

text \<open>\<^verbatim>\<open>GROUP BY s.id\<close>: one output row for each id among the rows that passed the filter,
  with the columns of the snippet and the aggregate over the rows of the group.\<close>

fun group_by_id :: "(snippet_row \<times> string option) list \<Rightarrow> (snippet_row \<times> string option) list" where
  "group_by_id [] = []"
| "group_by_id (r # rs) =
     (fst r, group_concat (snd r # map snd (filter (\<lambda>x. s_id (fst x) = s_id (fst r)) rs)))
       # group_by_id (filter (\<lambda>x. s_id (fst x) \<noteq> s_id (fst r)) rs)"

text \<open>\<^verbatim>\<open>ORDER BY s.created_at DESC\<close>. SQLite does not fix the order of rows with equal
  timestamps; the model keeps their earlier order.\<close>

fun insert_desc :: "snippet_row \<times> 'a \<Rightarrow> (snippet_row \<times> 'a) list \<Rightarrow> (snippet_row \<times> 'a) list" where
  "insert_desc r [] = [r]"
| "insert_desc r (x # xs) =
     (if s_created_at (fst x) < s_created_at (fst r) then r # x # xs else x # insert_desc r xs)"

definition order_by_created_at_desc :: "(snippet_row \<times> 'a) list \<Rightarrow> (snippet_row \<times> 'a) list" where
  "order_by_created_at_desc rows = foldr insert_desc rows []"

definition select_snippets :: "database \<Rightarrow> string \<Rightarrow> (snippet_row \<times> string option) list" where
  "select_snippets db searchQuery =
     order_by_created_at_desc (group_by_id
       (if searchQuery \<noteq> [] then filter (where_like (CHR ''%'' # searchQuery @ [CHR ''%''])) (joined db)
        else joined db))"

subsection \<open>The callback of db.all\<close>

text \<open>\<^verbatim>\<open>String.prototype.split(',')\<close>.\<close>

fun split_comma :: "string \<Rightarrow> string list" where
  "split_comma [] = [[]]"
| "split_comma (c # cs) =
     (if c = CHR '','' then [] # split_comma cs
      else (case split_comma cs of [] \<Rightarrow> [[c]] | w # ws \<Rightarrow> (c # w) # ws))"

record snippet_record =
  r_id :: nat
  r_title :: string
  r_code :: string
  r_language :: string
  r_created_at :: nat
  r_tags :: "string list"

text \<open>\<^verbatim>\<open>{...row, tags: row.tags ? row.tags.split(',') : []}\<close>: NULL and the empty string are
  both falsy.\<close>

definition parse_row :: "snippet_row \<times> string option \<Rightarrow> snippet_record" where
  "parse_row r =
     \<lparr> r_id = s_id (fst r), r_title = s_title (fst r), r_code = s_code (fst r),
       r_language = s_language (fst r), r_created_at = s_created_at (fst r),
       r_tags = (case snd r of None \<Rightarrow> [] | Some s \<Rightarrow> if s = [] then [] else split_comma s) \<rparr>"

text \<open>The first argument is the error that \<^verbatim>\<open>db.all\<close> reports, if the store fails.\<close>

definition getAllSnippets :: "sqlerr option \<Rightarrow> database \<Rightarrow> string \<Rightarrow> sqlerr + snippet_record list" where
  "getAllSnippets err db searchQuery =
     (case err of
        Some e \<Rightarrow> Inl e
      | None \<Rightarrow> Inr (map parse_row (select_snippets db searchQuery)))"

section \<open>The write path\<close>

subsection \<open>Connections and statements\<close>

text \<open>
  \<^verbatim>\<open>createConnection\<close> opens a new connection with \<^verbatim>\<open>new sqlite3.Database(DB_PATH)\<close> and
  runs nothing on it. In SQLite the enforcement of foreign keys is a setting of the
  connection, off when the connection is opened; only \<^verbatim>\<open>initializeDatabase\<close> runs
  \<^verbatim>\<open>PRAGMA foreign_keys = ON\<close>, on a connection of its own that it closes. So every
  connection that the model functions work on has the setting off.
\<close>

record connection =
  foreign_keys :: bool

definition createConnection :: connection where
  "createConnection = \<lparr> foreign_keys = False \<rparr>"

text \<open>\<^verbatim>\<open>AUTOINCREMENT\<close>: one more than the largest rowid ever used in the table.\<close>

definition next_rowid :: "nat \<Rightarrow> nat list \<Rightarrow> nat" where
  "next_rowid seq ids = Suc (fold max ids seq)"

text \<open>
  Every statement takes the failure of the store for this execution, if there is one
  (\<open>Some e\<close>: the statement changes nothing and its callback gets \<open>e\<close>).

  \<^verbatim>\<open>INSERT INTO snippets (title, code, language) VALUES (?, ?, ?)\<close>; an \<^verbatim>\<open>undefined\<close>
  title or code is bound as NULL and violates \<^verbatim>\<open>NOT NULL\<close>. The result is \<^verbatim>\<open>this.lastID\<close>.
\<close>

definition insert_snippet ::
  "sqlerr option \<Rightarrow> nat \<Rightarrow> string option \<Rightarrow> string option \<Rightarrow> string \<Rightarrow> database
     \<Rightarrow> sqlerr + (nat \<times> database)" where
  "insert_snippet err now title code language db =
     (case err of
        Some e \<Rightarrow> Inl e
      | None \<Rightarrow>
         (case title of
            None \<Rightarrow> Inl (SQLITE_CONSTRAINT ''NOT NULL constraint failed: snippets.title'')
          | Some t \<Rightarrow>
             (case code of
                None \<Rightarrow> Inl (SQLITE_CONSTRAINT ''NOT NULL constraint failed: snippets.code'')
              | Some c \<Rightarrow>
                 (let i = next_rowid (snippets_seq db) (map s_id (snippets db))
                  in Inr (i, db\<lparr> snippets := snippets db @
                                  [\<lparr> s_id = i, s_title = t, s_code = c, s_language = language,
                                     s_created_at = now \<rparr>],
                                snippets_seq := i \<rparr>)))))"

text \<open>\<^verbatim>\<open>INSERT OR IGNORE INTO tags (name) VALUES (?)\<close>: a name that is present already
  violates \<^verbatim>\<open>UNIQUE\<close>, and the row is skipped without an error. The rowid is drawn
  before the constraint is checked, so the \<^verbatim>\<open>AUTOINCREMENT\<close> counter advances also when
  the row is skipped.\<close>

definition insert_or_ignore_tag :: "string \<Rightarrow> database \<Rightarrow> database" where
  "insert_or_ignore_tag name db =
     (let i = next_rowid (tags_seq db) (map fst (tags db))
      in if name \<in> set (map snd (tags db)) then db\<lparr> tags_seq := i \<rparr>
         else db\<lparr> tags := tags db @ [(i, name)], tags_seq := i \<rparr>)"

definition insert_tag :: "sqlerr option \<Rightarrow> string \<Rightarrow> database \<Rightarrow> sqlerr + database" where
  "insert_tag err name db =
     (case err of Some e \<Rightarrow> Inl e | None \<Rightarrow> Inr (insert_or_ignore_tag name db))"

text \<open>\<^verbatim>\<open>SELECT id FROM tags WHERE name = ?\<close> through \<^verbatim>\<open>db.get\<close>: the id of the first row
  found, \<open>None\<close> for \<^verbatim>\<open>undefined\<close> (no row).\<close>

fun select_tag_id :: "string \<Rightarrow> tag_row list \<Rightarrow> nat option" where
  "select_tag_id name [] = None"
| "select_tag_id name (t # ts) = (if snd t = name then Some (fst t) else select_tag_id name ts)"

definition select_tag :: "sqlerr option \<Rightarrow> string \<Rightarrow> database \<Rightarrow> sqlerr + nat option" where
  "select_tag err name db =
     (case err of Some e \<Rightarrow> Inl e | None \<Rightarrow> Inr (select_tag_id name (tags db)))"

text \<open>\<^verbatim>\<open>INSERT INTO snippet_tags (snippet_id, tag_id) VALUES (?, ?)\<close>: a pair that is present
  violates the primary key; the foreign keys are checked only when the connection
  enforces them.\<close>

definition link_tag ::
  "connection \<Rightarrow> sqlerr option \<Rightarrow> nat \<Rightarrow> nat \<Rightarrow> database \<Rightarrow> sqlerr + database" where
  "link_tag conn err sid tid db =
     (case err of
        Some e \<Rightarrow> Inl e
      | None \<Rightarrow>
         (if (sid, tid) \<in> set (snippet_tags db)
          then Inl (SQLITE_CONSTRAINT ''UNIQUE constraint failed: snippet_tags.snippet_id, snippet_tags.tag_id'')
          else if foreign_keys conn \<and>
                  (sid \<notin> set (map s_id (snippets db)) \<or> tid \<notin> set (map fst (tags db)))
          then Inl (SQLITE_CONSTRAINT ''FOREIGN KEY constraint failed'')
          else Inr (db\<lparr> snippet_tags := snippet_tags db @ [(sid, tid)] \<rparr>)))"

text \<open>
  The insert-or-reuse of a tag, as the callbacks of \<^verbatim>\<open>createSnippet\<close> do it for each tag
  name: the \<^verbatim>\<open>INSERT OR IGNORE\<close>, whose error ends it, then the \<^verbatim>\<open>SELECT\<close> of the id,
  whose error ends it too; \<^verbatim>\<open>row.id\<close> is the identifier that goes into the link, and
  throws a \<^verbatim>\<open>TypeError\<close> when no row was found. The two arguments are the failures of the
  store for the two statements.
\<close>

datatype tag_outcome = Tag_id nat | Tag_error sqlerr | Tag_TypeError

definition insertTagIfAbsent ::
  "sqlerr option \<Rightarrow> sqlerr option \<Rightarrow> string \<Rightarrow> database \<Rightarrow> tag_outcome \<times> database" where
  "insertTagIfAbsent err1 err2 name db =
     (case insert_tag err1 name db of
        Inl e \<Rightarrow> (Tag_error e, db)
      | Inr db' \<Rightarrow>
         (case select_tag err2 name db' of
            Inl e \<Rightarrow> (Tag_error e, db')
          | Inr None \<Rightarrow> (Tag_TypeError, db')
          | Inr (Some row_id) \<Rightarrow> (Tag_id row_id, db')))"

subsection \<open>createSnippet (model)\<close>

text \<open>
  \<^verbatim>\<open>snippetData\<close>: each field may be \<^verbatim>\<open>undefined\<close>. The promise resolves with
  \<^verbatim>\<open>{ id: snippetId, ...snippetData }\<close>; it is rejected with an error object; or a callback
  throws (\<^verbatim>\<open>row.id\<close> on an \<^verbatim>\<open>undefined\<close> row), the promise is never settled and the
  process ends on the uncaught exception.
\<close>

record snippet_data =
  d_title :: "string option"
  d_code :: "string option"
  d_language :: "string option"
  d_tags :: "string list option"

record created =
  c_id :: nat
  c_data :: snippet_data

datatype 'a settle = Resolved 'a | Rejected sqlerr | Uncaught_TypeError

text \<open>\<^verbatim>\<open>language || 'javascript'\<close>: \<^verbatim>\<open>undefined\<close> and the empty string are falsy.\<close>

definition or_javascript :: "string option \<Rightarrow> string" where
  "or_javascript language =
     (case language of None \<Rightarrow> ''javascript'' | Some l \<Rightarrow> if l = [] then ''javascript'' else l)"

text \<open>\<^verbatim>\<open>tags\<close> as the callbacks read it: \<^verbatim>\<open>!tags || tags.length === 0\<close> holds for a missing
  and for an empty list.\<close>

definition tag_list :: "snippet_data \<Rightarrow> string list" where
  "tag_list d = (case d_tags d of None \<Rightarrow> [] | Some ts \<Rightarrow> ts)"

text \<open>
  The statements that \<^verbatim>\<open>createSnippet\<close> hands to its connection. The code does not
  serialize the connection (no \<^verbatim>\<open>db.serialize\<close>), so the library runs statements that are
  pending together in no fixed order: each goes to the thread pool on its own. A
  statement becomes pending when the code hands it over: \<^verbatim>\<open>BEGIN TRANSACTION\<close> and the
  snippet insert at the start, the others from callbacks. The connection runs one
  pending statement at a time, the one that the schedule \<^verbatim>\<open>env_pick\<close> selects, and then
  calls its callback, which may hand over further statements. With the schedule that
  always selects the first, the statements run in the order in which they were handed
  over.

  The state holds the database as the connection sees it, whether a transaction is open
  and the database as it was when it began, the pending statements, the variables
  \<^verbatim>\<open>snippetId\<close>, \<^verbatim>\<open>processedTags\<close> and \<^verbatim>\<open>tagErrors\<close> of the closure, the state of the
  promise, the number of statements with a callback run so far (which selects the
  failure of the store, if any; the snippet insert is number 0), the number of
  statements run so far (which the schedule reads), and the error that ended the
  process, if one did.
\<close>

datatype stmt =
    BEGIN | InsertSnippet | InsertTag string | SelectTag string | LinkTag nat nat
  | COMMIT | ROLLBACK

record tx_state =
  work :: database
  saved :: database
  in_tx :: bool
  pending :: "stmt list"
  snippetId :: nat
  processedTags :: nat
  tagErrors :: "sqlerr list"
  settled :: "created settle option"
  clock :: nat
  tick :: nat
  uncaught :: "sqlerr option"

record tx_env =
  env_pick :: "nat \<Rightarrow> nat"
  env_faults :: "nat \<Rightarrow> sqlerr option"
  env_conn :: connection
  env_now :: nat
  env_snippetData :: snippet_data

text \<open>A promise is settled once: a later \<^verbatim>\<open>resolve\<close> or \<^verbatim>\<open>reject\<close> has no effect.\<close>

definition settle :: "created settle \<Rightarrow> tx_state \<Rightarrow> tx_state" where
  "settle v st = (case settled st of None \<Rightarrow> st\<lparr> settled := Some v \<rparr> | Some _ \<Rightarrow> st)"

definition checkCompletion :: "tx_env \<Rightarrow> tx_state \<Rightarrow> tx_state" where
  "checkCompletion env st =
     (if processedTags st = length (tag_list (env_snippetData env)) then
        (case tagErrors st of
           e # _ \<Rightarrow> settle (Rejected e) (st\<lparr> pending := pending st @ [ROLLBACK] \<rparr>)
         | [] \<Rightarrow> settle (Resolved \<lparr> c_id = snippetId st, c_data = env_snippetData env \<rparr>)
                   (st\<lparr> pending := pending st @ [COMMIT] \<rparr>))
      else st)"

text \<open>The callback with an error: \<^verbatim>\<open>tagErrors.push(err); processedTags++; checkCompletion()\<close>.\<close>

definition tag_failed :: "tx_env \<Rightarrow> sqlerr \<Rightarrow> tx_state \<Rightarrow> tx_state" where
  "tag_failed env err st =
     checkCompletion env (st\<lparr> tagErrors := tagErrors st @ [err], processedTags := Suc (processedTags st) \<rparr>)"

text \<open>
  \<^verbatim>\<open>BEGIN\<close>, \<^verbatim>\<open>COMMIT\<close> and \<^verbatim>\<open>ROLLBACK\<close> are handed over without a callback. They fail
  when the connection is not in the state for them: \<^verbatim>\<open>BEGIN\<close> inside a transaction,
  \<^verbatim>\<open>COMMIT\<close> and \<^verbatim>\<open>ROLLBACK\<close> outside of one (other failures of the store are modelled for
  the statements with a callback only). When such a statement fails, the library emits
  an \<^verbatim>\<open>error\<close> event on the statement; nothing listens for it, so the event is thrown as
  an uncaught exception and the process ends. No further statement is run then.
\<close>

definition error_event :: "sqlerr \<Rightarrow> tx_state \<Rightarrow> tx_state" where
  "error_event err st = st\<lparr> pending := [], uncaught := Some err \<rparr>"

text \<open>
  One statement and its callback. The state is the one after the statement has left the
  pending ones. Statements outside a transaction are committed one by one. When the
  lookup finds no row, \<^verbatim>\<open>row.id\<close> throws in the callback: the promise stays open and the
  process ends.
\<close>

fun step :: "tx_env \<Rightarrow> stmt \<Rightarrow> tx_state \<Rightarrow> tx_state" where
  "step env BEGIN st =
     (if in_tx st
      then error_event (SQLITE_ERROR ''cannot start a transaction within a transaction'') st
      else st\<lparr> saved := work st, in_tx := True \<rparr>)"
| "step env InsertSnippet st =
     (case insert_snippet (env_faults env (clock st)) (env_now env)
             (d_title (env_snippetData env)) (d_code (env_snippetData env))
             (or_javascript (d_language (env_snippetData env))) (work st) of
        Inl err \<Rightarrow>
          settle (Rejected err) (st\<lparr> pending := pending st @ [ROLLBACK], clock := Suc (clock st) \<rparr>)
      | Inr (lastID, db') \<Rightarrow>
          (if tag_list (env_snippetData env) = [] then
             settle (Resolved \<lparr> c_id = lastID, c_data = (env_snippetData env)\<lparr> d_tags := Some [] \<rparr> \<rparr>)
               (st\<lparr> work := db', snippetId := lastID, pending := pending st @ [COMMIT],
                    clock := Suc (clock st) \<rparr>)
           else
             st\<lparr> work := db', snippetId := lastID, processedTags := 0, tagErrors := [],
                 pending := pending st @ map InsertTag (tag_list (env_snippetData env)),
                 clock := Suc (clock st) \<rparr>))"
| "step env (InsertTag tagName) st =
     (case insert_tag (env_faults env (clock st)) tagName (work st) of
        Inl err \<Rightarrow> tag_failed env err (st\<lparr> clock := Suc (clock st) \<rparr>)
      | Inr db' \<Rightarrow> st\<lparr> work := db', pending := pending st @ [SelectTag tagName], clock := Suc (clock st) \<rparr>)"
| "step env (SelectTag tagName) st =
     (case select_tag (env_faults env (clock st)) tagName (work st) of
        Inl err \<Rightarrow> tag_failed env err (st\<lparr> clock := Suc (clock st) \<rparr>)
      | Inr None \<Rightarrow> st\<lparr> pending := [], settled := Some Uncaught_TypeError, clock := Suc (clock st) \<rparr>
      | Inr (Some row_id) \<Rightarrow>
          st\<lparr> pending := pending st @ [LinkTag (snippetId st) row_id], clock := Suc (clock st) \<rparr>)"
| "step env (LinkTag sid tid) st =
     (case link_tag (env_conn env) (env_faults env (clock st)) sid tid (work st) of
        Inl err \<Rightarrow> tag_failed env err (st\<lparr> clock := Suc (clock st) \<rparr>)
      | Inr db' \<Rightarrow>
          checkCompletion env
            (st\<lparr> work := db', processedTags := Suc (processedTags st), clock := Suc (clock st) \<rparr>))"
| "step env COMMIT st =
     (if in_tx st then st\<lparr> in_tx := False \<rparr>
      else error_event (SQLITE_ERROR ''cannot commit - no transaction is active'') st)"
| "step env ROLLBACK st =
     (if in_tx st then st\<lparr> work := saved st, in_tx := False \<rparr>
      else error_event (SQLITE_ERROR ''cannot rollback - no transaction is active'') st)"

text \<open>A bound on the statements that a pending statement can still lead to, for a
  request with \<open>n\<close> tags.\<close>

fun weight :: "nat \<Rightarrow> stmt \<Rightarrow> nat" where
  "weight n BEGIN = 1"
| "weight n InsertSnippet = 4 * n + 2"
| "weight n (InsertTag t) = 4"
| "weight n (SelectTag t) = 3"
| "weight n (LinkTag s t) = 2"
| "weight n COMMIT = 1"
| "weight n ROLLBACK = 1"

definition backlog :: "tx_env \<Rightarrow> stmt list \<Rightarrow> nat" where
  "backlog env ss = sum_list (map (weight (length (tag_list (env_snippetData env)))) ss)"

text \<open>The statement that the schedule selects among the pending ones, and the others.\<close>

definition chosen :: "tx_env \<Rightarrow> tx_state \<Rightarrow> nat" where
  "chosen env st = env_pick env (tick st) mod length (pending st)"

definition others :: "nat \<Rightarrow> stmt list \<Rightarrow> stmt list" where
  "others i ss = take i ss @ drop (Suc i) ss"

text \<open>The connection runs pending statements until none is left.\<close>

function run :: "tx_env \<Rightarrow> tx_state \<Rightarrow> tx_state" where
  "run env st =
     (if pending st = [] then st
      else run env (step env (pending st ! chosen env st)
                      (st\<lparr> pending := others (chosen env st) (pending st), tick := Suc (tick st) \<rparr>)))"
  by pat_completeness auto
termination
proof (relation "measure (\<lambda>(env, st). backlog env (pending st))")
  show "wf (measure (\<lambda>(env, st). backlog env (pending st)))" by simp
next
  fix env :: tx_env and st :: tx_state
  assume ne: "pending st \<noteq> []"
  define i where "i = chosen env st"
  have i: "i < length (pending st)"
    using ne by (simp add: i_def chosen_def)
  have less: "backlog env (pending (step env s t)) < weight (length (tag_list (env_snippetData env))) s + backlog env (pending t)"
    for s t
    by (cases s)
       (auto simp: backlog_def checkCompletion_def tag_failed_def settle_def error_event_def
                   comp_def sum_list_triv
             split: sum.splits option.splits list.splits)
  have "backlog env (pending st) =
          weight (length (tag_list (env_snippetData env))) (pending st ! i) + backlog env (others i (pending st))"
    using arg_cong [OF id_take_nth_drop [OF i], of "backlog env"]
    by (simp add: backlog_def others_def)
  then show "((env, step env (pending st ! chosen env st)
                      (st\<lparr> pending := others (chosen env st) (pending st), tick := Suc (tick st) \<rparr>)),
              (env, st))
               \<in> measure (\<lambda>(env, st). backlog env (pending st))"
    using less [of "pending st ! i" "st\<lparr> pending := others i (pending st), tick := Suc (tick st) \<rparr>"]
    by (simp add: i_def)
qed

declare run.simps [simp del]

text \<open>The database that is left when the connection is closed or the process has ended:
  a transaction that is still open is rolled back.\<close>

definition closed :: "tx_state \<Rightarrow> database" where
  "closed st = (if in_tx st then saved st else work st)"

text \<open>
  \<^verbatim>\<open>createSnippet(snippetData)\<close> at time \<open>now\<close> on the database \<open>db0\<close>, with the schedule
  \<open>pick\<close> and the failures \<open>fs\<close> of the store. The result is the state of the promise
  (\<open>None\<close>: never settled) and the database that is left.
\<close>

definition createSnippet ::
  "(nat \<Rightarrow> nat) \<Rightarrow> (nat \<Rightarrow> sqlerr option) \<Rightarrow> nat \<Rightarrow> snippet_data \<Rightarrow> database
     \<Rightarrow> created settle option \<times> database" where
  "createSnippet pick fs now snippetData db0 =
     (let st = run \<lparr> env_pick = pick, env_faults = fs, env_conn = createConnection, env_now = now,
                     env_snippetData = snippetData \<rparr>
                   \<lparr> work = db0, saved = db0, in_tx = False, pending = [BEGIN, InsertSnippet],
                     snippetId = 0, processedTags = 0, tagErrors = [], settled = None, clock = 0,
                     tick = 0, uncaught = None \<rparr>
      in (settled st, closed st))"

subsection \<open>deleteSnippet (model)\<close>

text \<open>
  \<^verbatim>\<open>DELETE FROM snippets WHERE id = ?\<close> with the id bound as it came in, a string when it
  comes from the route. SQLite compares the integer column with the text after its
  numeric conversion of the text; that conversion (with its floating point rounding) is the
  parameter \<open>rowid_of\<close>: the rowid that the text is equal to, if any. The statement
  removes the matching rows and reports their number as \<^verbatim>\<open>this.changes\<close>; the link rows
  of a removed snippet go with it (\<^verbatim>\<open>ON DELETE CASCADE\<close>) only when the connection enforces
  foreign keys.
\<close>

definition delete_snippet_rows ::
  "connection \<Rightarrow> (string \<Rightarrow> nat option) \<Rightarrow> string \<Rightarrow> database \<Rightarrow> nat \<times> database" where
  "delete_snippet_rows c rowid_of ident db =
     (let gone = filter (\<lambda>s. rowid_of ident = Some (s_id s)) (snippets db)
      in (length gone,
          db\<lparr> snippets := filter (\<lambda>s. rowid_of ident \<noteq> Some (s_id s)) (snippets db),
              snippet_tags :=
                (if foreign_keys c
                 then filter (\<lambda>l. fst l \<notin> set (map s_id gone)) (snippet_tags db)
                 else snippet_tags db) \<rparr>))"

record delete_result =
  success :: bool
  changes :: nat

definition deleteSnippet ::
  "(string \<Rightarrow> nat option) \<Rightarrow> sqlerr option \<Rightarrow> string \<Rightarrow> database
     \<Rightarrow> (sqlerr + delete_result) \<times> database" where
  "deleteSnippet rowid_of err ident db =
     (case err of
        Some e \<Rightarrow> (Inl e, db)
      | None \<Rightarrow>
         (let (n, db') = delete_snippet_rows createConnection rowid_of ident db
          in (Inr \<lparr> success = True, changes = n \<rparr>, db')))"

text \<open>The conversion on the texts that are plain decimal numerals, which is all that the
  closed examples below need: \<^verbatim>\<open>'12'\<close> is equal to rowid 12.\<close>

definition is_digit :: "char \<Rightarrow> bool" where
  "is_digit c \<longleftrightarrow> 48 \<le> (of_char c :: nat) \<and> (of_char c :: nat) \<le> 57"

definition decimal_rowid :: "string \<Rightarrow> nat option" where
  "decimal_rowid s =
     (if s \<noteq> [] \<and> list_all is_digit s
      then Some (foldl (\<lambda>a c. 10 * a + (of_char c - 48)) 0 s) else None)"

section \<open>The controllers\<close>

subsection \<open>isNaN on a string\<close>

text \<open>
  \<^verbatim>\<open>isNaN(id)\<close> converts the string with ToNumber and tests for NaN. ToNumber strips
  white space at both ends; the empty string is 0; otherwise the string must be a
  StrNumericLiteral: a signed decimal literal (\<^verbatim>\<open>Infinity\<close>, digits with an optional
  fraction and exponent, or a fraction alone) or an unsigned binary, octal or hexadecimal
  integer literal.

  The string is held in UTF-8. White space is every WhiteSpace and LineTerminator code
  point of the standard, here by its UTF-8 bytes: U+0009 to U+000D, U+0020, U+00A0,
  U+1680, U+2000 to U+200A, U+2028, U+2029, U+202F, U+205F, U+3000 and U+FEFF.
\<close>

definition bytes :: "nat list \<Rightarrow> string" where
  "bytes ns = map char_of ns"

definition white_space :: "string list" where
  "white_space =
     map bytes
       [[9], [10], [11], [12], [13], [32],
        [194, 160],
        [225, 154, 128],
        [226, 128, 128], [226, 128, 129], [226, 128, 130], [226, 128, 131], [226, 128, 132],
        [226, 128, 133], [226, 128, 134], [226, 128, 135], [226, 128, 136], [226, 128, 137],
        [226, 128, 138],
        [226, 128, 168], [226, 128, 169], [226, 128, 175],
        [226, 129, 159],
        [227, 128, 128],
        [239, 187, 191]]"

text \<open>The length of the white space character that the string starts with, 0 when it
  starts with none; \<open>strip\<close> removes such characters from the front.\<close>

definition space_len :: "string list \<Rightarrow> string \<Rightarrow> nat" where
  "space_len seqs s =
     (if take 1 s \<in> set seqs then 1 else if take 2 s \<in> set seqs then 2
      else if take 3 s \<in> set seqs then 3 else 0)"

function strip :: "string list \<Rightarrow> string \<Rightarrow> string" where
  "strip seqs s =
     (if s = [] \<or> space_len seqs s = 0 then s else strip seqs (drop (space_len seqs s) s))"
  by pat_completeness auto
termination
  by (relation "measure (\<lambda>(seqs, s). length s)") auto

declare strip.simps [simp del]

definition trim :: "string \<Rightarrow> string" where
  "trim s = rev (strip (map rev white_space) (rev (strip white_space s)))"

definition is_digits :: "string \<Rightarrow> bool" where
  "is_digits s \<longleftrightarrow> s \<noteq> [] \<and> list_all is_digit s"

definition exponent_part :: "string \<Rightarrow> bool" where
  "exponent_part s =
     (case s of
        [] \<Rightarrow> False
      | e # r \<Rightarrow> (e = CHR ''e'' \<or> e = CHR ''E'') \<and>
          (case r of
             [] \<Rightarrow> False
           | g # r' \<Rightarrow> if g = CHR ''+'' \<or> g = CHR ''-'' then is_digits r' else is_digits (g # r')))"

definition unsigned_decimal :: "string \<Rightarrow> bool" where
  "unsigned_decimal s =
     (s = ''Infinity'' \<or>
      (let i = takeWhile is_digit s; r = dropWhile is_digit s
       in case r of
            [] \<Rightarrow> i \<noteq> []
          | d # r' \<Rightarrow>
              if d = CHR ''.''
              then (let f = takeWhile is_digit r'; x = dropWhile is_digit r'
                    in (i \<noteq> [] \<or> f \<noteq> []) \<and> (x = [] \<or> exponent_part x))
              else i \<noteq> [] \<and> exponent_part r))"

definition decimal_literal :: "string \<Rightarrow> bool" where
  "decimal_literal s =
     (case s of
        [] \<Rightarrow> False
      | g # r \<Rightarrow> if g = CHR ''+'' \<or> g = CHR ''-'' then unsigned_decimal r else unsigned_decimal s)"

definition is_hex_digit :: "char \<Rightarrow> bool" where
  "is_hex_digit c \<longleftrightarrow>
     is_digit c \<or> (of_char c :: nat) \<in> {65..70} \<or> (of_char c :: nat) \<in> {97..102}"

definition non_decimal_literal :: "string \<Rightarrow> bool" where
  "non_decimal_literal s =
     (case s of
        z # x # r \<Rightarrow>
          z = CHR ''0'' \<and> r \<noteq> [] \<and>
          ((x = CHR ''x'' \<or> x = CHR ''X'') \<and> list_all is_hex_digit r \<or>
           (x = CHR ''o'' \<or> x = CHR ''O'') \<and> list_all (\<lambda>c. (of_char c :: nat) \<in> {48..55}) r \<or>
           (x = CHR ''b'' \<or> x = CHR ''B'') \<and> list_all (\<lambda>c. (of_char c :: nat) \<in> {48..49}) r)
      | _ \<Rightarrow> False)"

definition isNaN :: "string \<Rightarrow> bool" where
  "isNaN s = (let t = trim s in t \<noteq> [] \<and> \<not> decimal_literal t \<and> \<not> non_decimal_literal t)"

subsection \<open>Responses\<close>

text \<open>What the handler sends: the status with its JSON body, or the error that it passes
  to \<^verbatim>\<open>next\<close> (the error middleware answers 500), or nothing when the promise it awaits
  is never settled.\<close>

datatype response =
    Status200_deleted
  | Status201_created created
  | Status400 string
  | Status404 string
  | Next_error sqlerr
  | No_response

subsection \<open>createSnippet (controller)\<close>

text \<open>\<^verbatim>\<open>req.body\<close>: each of the four fields may be missing. \<^verbatim>\<open>!title\<close> holds for a missing
  and for an empty title.\<close>

definition falsy :: "string option \<Rightarrow> bool" where
  "falsy v \<longleftrightarrow> (case v of None \<Rightarrow> True | Some s \<Rightarrow> s = [])"

definition createSnippet_controller ::
  "(nat \<Rightarrow> nat) \<Rightarrow> (nat \<Rightarrow> sqlerr option) \<Rightarrow> nat \<Rightarrow> snippet_data \<Rightarrow> database
     \<Rightarrow> response \<times> database" where
  "createSnippet_controller pick fs now body db =
     (if falsy (d_title body) \<or> falsy (d_code body) then (Status400 ''Title and code are required'', db)
      else
        (case createSnippet pick fs now
                \<lparr> d_title = d_title body, d_code = d_code body,
                  d_language = Some (or_javascript (d_language body)),
                  d_tags = Some (case d_tags body of None \<Rightarrow> [] | Some ts \<Rightarrow> ts) \<rparr> db of
           (Some (Resolved snippet), db') \<Rightarrow> (Status201_created snippet, db')
         | (Some (Rejected error), db') \<Rightarrow> (Next_error error, db')
         | (Some Uncaught_TypeError, db') \<Rightarrow> (No_response, db')
         | (None, db') \<Rightarrow> (No_response, db')))"

subsection \<open>deleteSnippet (controller)\<close>

definition deleteSnippet_controller ::
  "(string \<Rightarrow> nat option) \<Rightarrow> sqlerr option \<Rightarrow> string \<Rightarrow> database \<Rightarrow> response \<times> database" where
  "deleteSnippet_controller rowid_of err ident db =
     (if isNaN ident then (Status400 ''Invalid snippet ID'', db)
      else
        (case deleteSnippet rowid_of err ident db of
           (Inl error, db') \<Rightarrow> (Next_error error, db')
         | (Inr result, db') \<Rightarrow>
             if changes result = 0 then (Status404 ''Snippet not found'', db')
             else (Status200_deleted, db')))"

section \<open>Notions used to state the properties\<close>

text \<open>The names of the tags that the link rows of a snippet lead to.\<close>

definition linked_names :: "database \<Rightarrow> nat \<Rightarrow> string list" where
  "linked_names db sid =
     concat (map (\<lambda>l. map snd (filter (\<lambda>t. fst t = snd l) (tags db)))
                 (filter (\<lambda>l. fst l = sid) (snippet_tags db)))"

text \<open>The columns of the snippet in a listed record.\<close>

definition row_of :: "snippet_record \<Rightarrow> snippet_row" where
  "row_of r = \<lparr> s_id = r_id r, s_title = r_title r, s_code = r_code r, s_language = r_language r,
               s_created_at = r_created_at r \<rparr>"

text \<open>A text contains another as a substring, up to ASCII case.\<close>

fun starts_with_ci :: "string \<Rightarrow> string \<Rightarrow> bool" where
  "starts_with_ci [] t = True"
| "starts_with_ci (p # ps) [] = False"
| "starts_with_ci (p # ps) (c # cs) = (lower p = lower c \<and> starts_with_ci ps cs)"

fun icontains :: "string \<Rightarrow> string \<Rightarrow> bool" where
  "icontains q [] = (q = [])"
| "icontains q (c # cs) = (starts_with_ci q (c # cs) \<or> icontains q cs)"

text \<open>The text is in the title, the code, the language or the name of a linked tag.\<close>

definition matches :: "database \<Rightarrow> string \<Rightarrow> snippet_row \<Rightarrow> bool" where
  "matches db q s \<longleftrightarrow>
     icontains q (s_title s) \<or> icontains q (s_code s) \<or> icontains q (s_language s) \<or>
     list_ex (icontains q) (linked_names db (s_id s))"

text \<open>A text without a NUL character, and a database whose stored texts have none.\<close>

definition nul_free :: "string \<Rightarrow> bool" where
  "nul_free s \<longleftrightarrow> list_all (\<lambda>c. (of_char c :: nat) \<noteq> 0) s"

definition nul_free_db :: "database \<Rightarrow> bool" where
  "nul_free_db db \<longleftrightarrow>
     list_all (\<lambda>s. nul_free (s_title s) \<and> nul_free (s_code s) \<and> nul_free (s_language s))
              (snippets db) \<and>
     list_all (\<lambda>t. nul_free (snd t)) (tags db)"

text \<open>
  The statements of the tag chains of a \<^verbatim>\<open>createSnippet\<close> call, and the names that are on
  their way through them: a tag whose insert or lookup is pending counts under its
  name, a tag whose link is pending under the names of the rows with the id that the
  lookup found. \<open>to_insert\<close> are the names whose insert is still pending.
\<close>

fun tag_stmt :: "stmt \<Rightarrow> bool" where
  "tag_stmt (InsertTag t) = True"
| "tag_stmt (SelectTag t) = True"
| "tag_stmt (LinkTag a b) = True"
| "tag_stmt s = False"

fun stage_names :: "database \<Rightarrow> stmt \<Rightarrow> string list" where
  "stage_names d (InsertTag t) = [t]"
| "stage_names d (SelectTag t) = [t]"
| "stage_names d (LinkTag a b) = map snd (filter (\<lambda>t. fst t = b) (tags d))"
| "stage_names d s = []"

definition in_flight :: "database \<Rightarrow> stmt list \<Rightarrow> string list" where
  "in_flight d ss = concat (map (stage_names d) ss)"

fun insert_name :: "stmt \<Rightarrow> string list" where
  "insert_name (InsertTag t) = [t]"
| "insert_name s = []"

definition to_insert :: "stmt list \<Rightarrow> string list" where
  "to_insert ss = concat (map insert_name ss)"

text \<open>A pending statement of the tag phase that will find what it looks for: a lookup
  the row of its name, a link the new snippet and the row of its tag.\<close>

fun ready :: "database \<Rightarrow> nat \<Rightarrow> stmt \<Rightarrow> bool" where
  "ready d sid BEGIN = True"
| "ready d sid (InsertTag t) = True"
| "ready d sid (SelectTag t) = (t \<in> snd ` set (tags d))"
| "ready d sid (LinkTag a b) = (a = sid \<and> b \<in> fst ` set (tags d))"
| "ready d sid s = False"

text \<open>
  The database \<open>W\<close> and the pending statements \<open>ps\<close> while the tags \<open>tgs\<close> of a call
  without failures are processed, for the database \<open>db0\<close> before the call, the new
  snippet \<open>sid\<close> and the snippet rows \<open>rows\<close> after its insert. The tag table has grown
  at its end only, by the new names whose insert has run; every given name is either
  on its way or linked to the new snippet.
\<close>

definition store_ok ::
  "string list \<Rightarrow> database \<Rightarrow> nat \<Rightarrow> snippet_row list \<Rightarrow> database \<Rightarrow> stmt list \<Rightarrow> bool" where
  "store_ok tgs db0 sid rows W ps \<longleftrightarrow>
     list_all (ready W sid) ps \<and>
     distinct (map fst (tags W)) \<and> distinct (map snd (tags W)) \<and>
     (\<exists>ext. tags W = tags db0 @ ext) \<and>
     mset (map snd (tags W)) + mset (filter (\<lambda>t. t \<notin> snd ` set (tags db0)) (to_insert ps))
       = mset (map snd (tags db0)) + mset (filter (\<lambda>t. t \<notin> snd ` set (tags db0)) tgs) \<and>
     mset (in_flight W ps) + mset (linked_names W sid) = mset tgs \<and>
     list_all (\<lambda>l. fst l = sid \<longrightarrow> snd l \<in> fst ` set (tags W)) (snippet_tags W) \<and>
     snippets W = rows \<and>
     (\<exists>ls. snippet_tags W = snippet_tags db0 @ ls \<and> list_all (\<lambda>l. fst l = sid) ls)"

text \<open>
  The states of such a call. While tags are processed the promise is open, no error is
  recorded, \<^verbatim>\<open>BEGIN TRANSACTION\<close> is pending exactly when no transaction is open, and
  every tag is either counted in \<^verbatim>\<open>processedTags\<close> or has its current statement pending.
  Once \<^verbatim>\<open>checkCompletion\<close> has fired the promise is settled and the \<^verbatim>\<open>COMMIT\<close> is
  pending, after \<^verbatim>\<open>BEGIN TRANSACTION\<close> if that has not run yet.
\<close>

definition tagging ::
  "string list \<Rightarrow> database \<Rightarrow> nat \<Rightarrow> snippet_row list \<Rightarrow> tx_state \<Rightarrow> bool" where
  "tagging tgs db0 sid rows st \<longleftrightarrow>
     settled st = None \<and> tagErrors st = [] \<and> snippetId st = sid \<and>
     length (filter (\<lambda>s. s = BEGIN) (pending st)) = (if in_tx st then 0 else 1) \<and>
     processedTags st + length (filter tag_stmt (pending st)) = length tgs \<and>
     processedTags st < length tgs \<and>
     store_ok tgs db0 sid rows (work st) (pending st)"

definition committing ::
  "string list \<Rightarrow> database \<Rightarrow> nat \<Rightarrow> snippet_row list \<Rightarrow> created settle \<Rightarrow> tx_state \<Rightarrow> bool" where
  "committing tgs db0 sid rows v st \<longleftrightarrow>
     settled st = Some v \<and> store_ok tgs db0 sid rows (work st) [] \<and>
     pending st = (if in_tx st then [COMMIT] else [BEGIN, COMMIT])"

text \<open>
  The states of any call, whatever fails: both databases satisfy the constraints, and
  the pending statements are those of one of three phases. Before the snippet insert
  has run, it is pending once, with at most \<^verbatim>\<open>BEGIN TRANSACTION\<close>. While tag statements
  are pending, nothing else is but \<^verbatim>\<open>BEGIN TRANSACTION\<close>, every tag is either counted or
  has its statement pending, and every pending link is one of the new snippet, whose
  id is below the counter. After that only \<^verbatim>\<open>BEGIN\<close>, \<^verbatim>\<open>COMMIT\<close> and \<^verbatim>\<open>ROLLBACK\<close> are left.
\<close>

fun ctl_stmt :: "stmt \<Rightarrow> bool" where
  "ctl_stmt BEGIN = True"
| "ctl_stmt COMMIT = True"
| "ctl_stmt ROLLBACK = True"
| "ctl_stmt s = False"

fun links_to :: "nat \<Rightarrow> stmt \<Rightarrow> bool" where
  "links_to sid (LinkTag a b) = (a = sid)"
| "links_to sid s = True"

definition consistent :: "tx_env \<Rightarrow> tx_state \<Rightarrow> bool" where
  "consistent env st \<longleftrightarrow>
     wf_db (work st) \<and> wf_db (saved st) \<and>
     (if InsertSnippet \<in> set (pending st)
      then length (filter (\<lambda>s. s = InsertSnippet) (pending st)) = 1 \<and>
           list_all (\<lambda>s. s = BEGIN \<or> s = InsertSnippet) (pending st)
      else if filter tag_stmt (pending st) \<noteq> []
      then list_all (\<lambda>s. s = BEGIN \<or> tag_stmt s) (pending st) \<and>
           list_all (links_to (snippetId st)) (pending st) \<and>
           snippetId st \<le> snippets_seq (work st) \<and>
           processedTags st + length (filter tag_stmt (pending st)) =
             length (tag_list (env_snippetData env))
      else list_all ctl_stmt (pending st))"

section \<open>Example databases, requests and schedules\<close>

text \<open>One snippet with two tags.\<close>

definition loop_db :: database where
  "loop_db =
     \<lparr> snippets = [\<lparr> s_id = 1, s_title = ''Loop'', s_code = ''while (true) {}'',
                    s_language = ''javascript'', s_created_at = 10 \<rparr>],
       tags = [(1, ''python''), (2, ''basics'')],
       snippet_tags = [(1, 1), (1, 2)], snippets_seq = 1, tags_seq = 2 \<rparr>"

text \<open>The same with a second, newer snippet that has no tag.\<close>

definition lone_snippet :: snippet_row where
  "lone_snippet =
     \<lparr> s_id = 2, s_title = ''Array'', s_code = ''[1, 2].length'', s_language = ''javascript'',
       s_created_at = 20 \<rparr>"

definition lone_db :: database where
  "lone_db = loop_db\<lparr> snippets := snippets loop_db @ [lone_snippet], snippets_seq := 2 \<rparr>"

text \<open>The empty database, as \<^verbatim>\<open>initializeDatabase\<close> leaves a new file.\<close>

definition empty_db :: database where
  "empty_db = \<lparr> snippets = [], tags = [], snippet_tags = [], snippets_seq = 0, tags_seq = 0 \<rparr>"

text \<open>Two request bodies: a title of two spaces, and an empty title.\<close>

definition blank_title_body :: snippet_data where
  "blank_title_body = \<lparr> d_title = Some ''  '', d_code = Some ''c'', d_language = None, d_tags = None \<rparr>"

definition empty_title_body :: snippet_data where
  "empty_title_body = \<lparr> d_title = Some [], d_code = Some ''c'', d_language = None, d_tags = None \<rparr>"

text \<open>One snippet with the tags \<^verbatim>\<open>a,b\<close> and \<^verbatim>\<open>a\<close>.\<close>

definition comma_db :: database where
  "comma_db =
     \<lparr> snippets = [\<lparr> s_id = 1, s_title = ''Loop'', s_code = ''while (true) {}'',
                    s_language = ''javascript'', s_created_at = 10 \<rparr>],
       tags = [(1, ''a,b''), (2, ''a'')],
       snippet_tags = [(1, 1), (1, 2)], snippets_seq = 1, tags_seq = 2 \<rparr>"

text \<open>One snippet without tags.\<close>

definition wildcard_db :: database where
  "wildcard_db =
     \<lparr> snippets = [\<lparr> s_id = 1, s_title = ''Loop'', s_code = ''while (true) {}'',
                    s_language = ''javascript'', s_created_at = 10 \<rparr>],
       tags = [], snippet_tags = [], snippets_seq = 1, tags_seq = 0 \<rparr>"

text \<open>A request with three tags, and a store that fails on the statement with number 2:
  the insert of the second tag, when the snippet insert and the tag inserts run in the
  order in which they were handed over.\<close>

definition three_tags_body :: snippet_data where
  "three_tags_body =
     \<lparr> d_title = Some ''t'', d_code = Some ''c'', d_language = Some ''javascript'',
       d_tags = Some [''x'', ''y'', ''z''] \<rparr>"

definition reject_second_tag :: "nat \<Rightarrow> sqlerr option" where
  "reject_second_tag k = (if k = 2 then Some (SQLITE_FAILURE 7) else None)"

text \<open>A request that names the tag \<^verbatim>\<open>x\<close> twice, and one without the duplicate.\<close>

definition duplicate_tags_body :: snippet_data where
  "duplicate_tags_body =
     \<lparr> d_title = Some ''t'', d_code = Some ''c'', d_language = Some ''javascript'',
       d_tags = Some [''x'', ''x'', ''y''] \<rparr>"

definition two_tags_body :: snippet_data where
  "two_tags_body =
     \<lparr> d_title = Some ''t'', d_code = Some ''c'', d_language = Some ''javascript'',
       d_tags = Some [''x'', ''y''] \<rparr>"

text \<open>
  Three schedules. The first runs the statements in the order in which they were handed
  over. The second differs in the first choice only: of \<^verbatim>\<open>BEGIN TRANSACTION\<close> and the
  snippet insert, which are pending together from the start, it runs the insert first.
  The third takes later statements first.
\<close>

definition in_order :: "nat \<Rightarrow> nat" where
  "in_order t = 0"

definition insert_before_begin :: "nat \<Rightarrow> nat" where
  "insert_before_begin t = (if t = 0 then 1 else 0)"

definition countdown :: "nat \<Rightarrow> nat" where
  "countdown t = 7 - t"

section \<open>Properties\<close>

subsection \<open>The read path\<close>

lemma join_tags_nonempty: "join_tags db tid \<noteq> []"
  by (simp add: join_tags_def split: list.splits)

lemma join_links_nonempty: "join_links db sid \<noteq> []"
proof (cases "filter (\<lambda>l. fst l = sid) (snippet_tags db)")
  case Nil
  then show ?thesis by (simp add: join_links_def)
next
  case (Cons l ls)
  then show ?thesis by (simp add: join_links_def join_tags_nonempty)
qed




lemma mset_insert_desc: "mset (insert_desc r xs) = add_mset r (mset xs)"
  by (induction xs) auto

lemma mset_order_by: "mset (order_by_created_at_desc rows) = mset rows"
  unfolding order_by_created_at_desc_def by (induction rows) (auto simp: mset_insert_desc)

lemma set_order_by: "set (order_by_created_at_desc rows) = set rows"
  using mset_order_by by (metis set_mset_mset)



lemma group_by_id_ids:
  "(\<lambda>r. s_id (fst r)) ` set (group_by_id rows) = (\<lambda>r. s_id (fst r)) ` set rows"
  by (induction rows rule: group_by_id.induct) (auto simp: image_iff)





text \<open>Every listing, with or without search text, holds each snippet id once.\<close>

lemma group_by_id_distinct: "distinct (map (\<lambda>r. s_id (fst r)) (group_by_id rows))"
proof (induction rows rule: group_by_id.induct)
  case 1
  then show ?case by simp
next
  case (2 r rs)
  have "s_id (fst r) \<notin> (\<lambda>r. s_id (fst r)) ` set (group_by_id (filter (\<lambda>x. s_id (fst x) \<noteq> s_id (fst r)) rs))"
    unfolding group_by_id_ids by auto
  with 2 show ?case by simp
qed

lemma listed_once:
  assumes "getAllSnippets err db searchQuery = Inr rs"
  shows "distinct (map r_id rs)"
proof -
  define rows where "rows = group_by_id
       (if searchQuery \<noteq> [] then filter (where_like (CHR ''%'' # searchQuery @ [CHR ''%''])) (joined db)
        else joined db)"
  from assms have rs: "rs = map parse_row (order_by_created_at_desc rows)"
    by (auto simp: getAllSnippets_def select_snippets_def rows_def split: option.splits)
  have "map r_id rs = map (\<lambda>r. s_id (fst r)) (order_by_created_at_desc rows)"
    by (simp add: rs parse_row_def)
  moreover have "mset (map (\<lambda>r. s_id (fst r)) (order_by_created_at_desc rows))
                   = mset (map (\<lambda>r. s_id (fst r)) rows)"
    by (simp add: mset_order_by)
  ultimately have "mset (map r_id rs) = mset (map (\<lambda>r. s_id (fst r)) rows)" by simp
  then have "distinct (map r_id rs) = distinct (map (\<lambda>r. s_id (fst r)) rows)"
    by (rule mset_eq_imp_distinct_iff)
  then show ?thesis by (simp add: rows_def group_by_id_distinct)
qed

text \<open>
  C3 says that a snippet found by a search is listed once with its complete tag set. It
  is listed once (lemma \<open>listed_once\<close>), but \<^verbatim>\<open>WHERE\<close> filters the joined rows before
  \<^verbatim>\<open>GROUP BY\<close>, so a snippet that matches through a tag only keeps the rows of its matching
  tags: the snippet of \<open>loop_db\<close> has the tags python and basics, and the search for
  python reports python alone, while the listing without search text reports both.
\<close>

theorem search_by_tag_reports_matching_tag_only:
  "getAllSnippets None loop_db ''python'' =
     Inr [\<lparr> r_id = 1, r_title = ''Loop'', r_code = ''while (true) {}'', r_language = ''javascript'',
            r_created_at = 10, r_tags = [''python''] \<rparr>] \<and>
   getAllSnippets None loop_db [] =
     Inr [\<lparr> r_id = 1, r_title = ''Loop'', r_code = ''while (true) {}'', r_language = ''javascript'',
            r_created_at = 10, r_tags = [''python'', ''basics''] \<rparr>]"
  by code_simp

subsection \<open>isNaN\<close>

lemma white_space_ends:
  "list_all (\<lambda>q. q \<noteq> [] \<and> \<not> is_digit (hd q) \<and> \<not> is_digit (last q)) white_space"
  by code_simp

lemma strip_no_space:
  assumes "list_all (\<lambda>q. q \<noteq> [] \<and> \<not> P (hd q)) seqs" and "s \<noteq> []" and "P (hd s)"
  shows "strip seqs s = s"
proof -
  have "take k s \<notin> set seqs" if "0 < k" for k
  proof
    assume "take k s \<in> set seqs"
    with assms(1) have "\<not> P (hd (take k s))" by (simp add: list_all_iff)
    moreover have "hd (take k s) = hd s" using that assms(2) by (cases s; cases k) auto
    ultimately show False using assms(3) by simp
  qed
  then have "space_len seqs s = 0" by (simp add: space_len_def)
  then show ?thesis by (subst strip.simps) simp
qed

lemma trim_digits: "is_digits s \<Longrightarrow> trim s = s"
proof -
  assume d: "is_digits s"
  then have ne: "s \<noteq> []" and h: "is_digit (hd s)" and l: "is_digit (last s)"
    by (auto simp: is_digits_def list_all_iff)
  have 1: "strip white_space s = s"
    using white_space_ends ne h
    by (intro strip_no_space [where P = is_digit]) (auto simp: list_all_iff)
  have "list_all (\<lambda>q. q \<noteq> [] \<and> \<not> is_digit (hd q)) (map rev white_space)"
    using white_space_ends by (auto simp: list_all_iff hd_rev)
  then have 2: "strip (map rev white_space) (rev s) = rev s"
    using ne l by (intro strip_no_space [where P = is_digit]) (auto simp: hd_rev)
  show ?thesis by (simp add: trim_def 1 2)
qed

lemma decimal_literal_digits: "is_digits s \<Longrightarrow> decimal_literal s"
proof -
  assume d: "is_digits s"
  then obtain c cs where s: "s = c # cs" by (cases s) (auto simp: is_digits_def)
  from d have all: "list_all is_digit s" by (simp add: is_digits_def)
  then have t: "takeWhile is_digit s = s" "dropWhile is_digit s = []"
    by (simp_all add: list_all_iff)
  from all s have "is_digit c" by simp
  then have sign: "c \<noteq> CHR ''+''" "c \<noteq> CHR ''-''"
    by (auto simp: is_digit_def)
  have "unsigned_decimal s"
    unfolding unsigned_decimal_def t using s by simp
  with sign s show ?thesis by (simp add: decimal_literal_def)
qed

lemma digits_not_NaN: "is_digits s \<Longrightarrow> \<not> isNaN s"
  by (simp add: isNaN_def trim_digits decimal_literal_digits)

text \<open>White space around a numeral is stripped, the no-break space U+00A0 and the byte
  order mark U+FEFF as well as the ASCII space; a lone byte of such a character is not.\<close>

lemma isNaN_strips_white_space:
  "\<not> isNaN (bytes [194, 160] @ ''1'') \<and>
   \<not> isNaN (bytes [239, 187, 191] @ '' 12 '' @ bytes [226, 128, 168]) \<and>
   isNaN (bytes [194] @ ''1'') \<and> isNaN (bytes [194, 160] @ ''x'')"
  by code_simp

subsection \<open>Insert-or-reuse of a tag\<close>

lemma select_tag_id_None: "select_tag_id name ts = None \<longleftrightarrow> name \<notin> snd ` set ts"
  by (induction ts) auto

lemma fold_max_ge: "(seq :: nat) \<le> fold max ids seq \<and> (\<forall>i \<in> set ids. i \<le> fold max ids seq)"
proof (induction ids arbitrary: seq)
  case Nil
  then show ?case by simp
next
  case (Cons i ids)
  from Cons [of "max i seq"] show ?case by (auto simp: max_def split: if_splits)
qed

lemma next_rowid_fresh: "seq < next_rowid seq ids" "i \<in> set ids \<Longrightarrow> i < next_rowid seq ids"
  using fold_max_ge [of seq ids] by (auto simp: next_rowid_def less_Suc_eq_le)

lemma select_tag_id_Some: "select_tag_id n ts = Some i \<Longrightarrow> (i, n) \<in> set ts"
  by (induction ts) (auto split: if_splits)

lemma one_row_of_id:
  "distinct (map fst ts) \<Longrightarrow> (i, n) \<in> set ts \<Longrightarrow> filter (\<lambda>r. fst r = i) ts = [(i, n)]"
proof (induction ts)
  case Nil
  then show ?case by simp
next
  case (Cons r ts)
  show ?case
  proof (cases "fst r = i")
    case True
    with Cons.prems have "i \<notin> fst ` set ts" by auto
    then have "filter (\<lambda>r. fst r = i) ts = []" "(i, n) \<notin> set ts"
      unfolding filter_empty_conv by force+
    with True Cons.prems show ?thesis by auto
  next
    case False
    with Cons show ?thesis by auto
  qed
qed

lemma one_row_of_name:
  "distinct (map snd ts) \<Longrightarrow> (i, name) \<in> set ts \<Longrightarrow> filter (\<lambda>t. snd t = name) ts = [(i, name)]"
proof (induction ts)
  case Nil
  then show ?case by simp
next
  case (Cons t ts)
  show ?case
  proof (cases "snd t = name")
    case True
    with Cons.prems have "name \<notin> snd ` set ts" by auto
    then have "filter (\<lambda>t. snd t = name) ts = []" "(i, name) \<notin> set ts"
      unfolding filter_empty_conv by force+
    with True Cons.prems show ?thesis by auto
  next
    case False
    with Cons show ?thesis by auto
  qed
qed

lemma next_tag_id_fresh: "next_rowid (tags_seq W) (map fst (tags W)) \<notin> fst ` set (tags W)"
  using next_rowid_fresh(2) [of "next_rowid (tags_seq W) (map fst (tags W))" "map fst (tags W)" "tags_seq W"]
  by auto

lemma tags_insert_or_ignore_tag:
  "tags (insert_or_ignore_tag t W) =
     (if t \<in> snd ` set (tags W) then tags W
      else tags W @ [(next_rowid (tags_seq W) (map fst (tags W)), t)])"
  by (simp add: insert_or_ignore_tag_def Let_def)

lemma frame_insert_or_ignore_tag:
  "snippets (insert_or_ignore_tag t W) = snippets W"
  "snippet_tags (insert_or_ignore_tag t W) = snippet_tags W"
  "snippets_seq (insert_or_ignore_tag t W) = snippets_seq W"
  by (simp_all add: insert_or_ignore_tag_def Let_def)

lemma ids_insert_or_ignore_tag:
  "fst ` set (tags W) \<subseteq> fst ` set (tags (insert_or_ignore_tag t W))"
  by (auto simp: tags_insert_or_ignore_tag)

lemma names_insert_or_ignore_tag:
  "snd ` set (tags (insert_or_ignore_tag t W)) = insert t (snd ` set (tags W))"
  by (auto simp: tags_insert_or_ignore_tag)

lemma distinct_ids_insert_or_ignore_tag:
  "distinct (map fst (tags W)) \<Longrightarrow> distinct (map fst (tags (insert_or_ignore_tag t W)))"
  using next_tag_id_fresh [of W] by (simp add: tags_insert_or_ignore_tag)

lemma distinct_names_insert_or_ignore_tag:
  "distinct (map snd (tags W)) \<Longrightarrow> distinct (map snd (tags (insert_or_ignore_tag t W)))"
  by (simp add: tags_insert_or_ignore_tag)

lemma rows_of_id_insert_or_ignore_tag:
  assumes "b \<in> fst ` set (tags W)"
  shows "filter (\<lambda>r. fst r = b) (tags (insert_or_ignore_tag t W)) = filter (\<lambda>r. fst r = b) (tags W)"
proof -
  from assms next_tag_id_fresh [of W] have "next_rowid (tags_seq W) (map fst (tags W)) \<noteq> b" by metis
  then show ?thesis by (simp add: tags_insert_or_ignore_tag)
qed

lemma insert_or_ignore_tag_again:
  "name \<in> snd ` set (tags db) \<Longrightarrow>
   insert_or_ignore_tag name db = db\<lparr> tags_seq := next_rowid (tags_seq db) (map fst (tags db)) \<rparr>"
  by (simp add: insert_or_ignore_tag_def Let_def)

text \<open>
  C9. Insert-or-reuse of a tag name is idempotent. For a non-empty name, on a table whose
  names are unique and a store that does not fail: the \<^verbatim>\<open>INSERT OR IGNORE\<close> and the
  \<^verbatim>\<open>SELECT\<close> end neither in an error nor in a \<^verbatim>\<open>TypeError\<close> but in an identifier; doing
  both again ends in the same identifier; the table then holds exactly one row with
  that name, and it is the row with this identifier; a row with the name that was
  there before is this row; the second time leaves the rows of all three tables as
  they were; and when the name was present already, so does the first time. What an
  ignored insert does change is the \<^verbatim>\<open>AUTOINCREMENT\<close> counter of the table, which no row
  shows.
\<close>

theorem insertTagIfAbsent_idempotent:
  assumes "name \<noteq> []" and "distinct (map snd (tags db))"
  shows "(\<exists>i. fst (insertTagIfAbsent None None name db) = Tag_id i \<and>
              fst (insertTagIfAbsent None None name (snd (insertTagIfAbsent None None name db))) = Tag_id i \<and>
              filter (\<lambda>t. snd t = name) (tags (snd (insertTagIfAbsent None None name db))) = [(i, name)] \<and>
              (\<forall>j. (j, name) \<in> set (tags db) \<longrightarrow> j = i)) \<and>
         tags (snd (insertTagIfAbsent None None name (snd (insertTagIfAbsent None None name db)))) =
           tags (snd (insertTagIfAbsent None None name db)) \<and>
         snippets (snd (insertTagIfAbsent None None name (snd (insertTagIfAbsent None None name db)))) =
           snippets (snd (insertTagIfAbsent None None name db)) \<and>
         snippet_tags (snd (insertTagIfAbsent None None name (snd (insertTagIfAbsent None None name db)))) =
           snippet_tags (snd (insertTagIfAbsent None None name db)) \<and>
         (name \<in> snd ` set (tags db) \<longrightarrow>
            tags (snd (insertTagIfAbsent None None name db)) = tags db \<and>
            snippets (snd (insertTagIfAbsent None None name db)) = snippets db \<and>
            snippet_tags (snd (insertTagIfAbsent None None name db)) = snippet_tags db)"
proof -
  define db1 where "db1 = insert_or_ignore_tag name db"
  define db2 where "db2 = insert_or_ignore_tag name db1"
  have in1: "name \<in> snd ` set (tags db1)"
    unfolding db1_def by (simp add: names_insert_or_ignore_tag)
  then obtain i where i: "select_tag_id name (tags db1) = Some i"
    using select_tag_id_None [of name "tags db1"] by auto
  then have row: "(i, name) \<in> set (tags db1)" by (rule select_tag_id_Some)
  have d1: "distinct (map snd (tags db1))"
    unfolding db1_def using assms(2) by (rule distinct_names_insert_or_ignore_tag)
  have t2: "tags db2 = tags db1" "snippets db2 = snippets db1" "snippet_tags db2 = snippet_tags db1"
    unfolding db2_def using in1 by (simp_all add: insert_or_ignore_tag_again)
  have r1: "insertTagIfAbsent None None name db = (Tag_id i, db1)"
    using i by (simp add: insertTagIfAbsent_def insert_tag_def select_tag_def db1_def)
  have r2: "insertTagIfAbsent None None name db1 = (Tag_id i, db2)"
    using i t2(1) by (simp add: insertTagIfAbsent_def insert_tag_def select_tag_def db2_def)
  have one: "filter (\<lambda>t. snd t = name) (tags db1) = [(i, name)]"
    using d1 row by (rule one_row_of_name)
  have old: "j = i" if "(j, name) \<in> set (tags db)" for j
  proof -
    from that have "name \<in> snd ` set (tags db)" by force
    then have "tags db1 = tags db" by (simp add: db1_def insert_or_ignore_tag_again)
    with that have "(j, name) \<in> set (filter (\<lambda>t. snd t = name) (tags db1))" by simp
    then show ?thesis by (simp add: one)
  qed
  have same: "tags db1 = tags db \<and> snippets db1 = snippets db \<and> snippet_tags db1 = snippet_tags db"
    if "name \<in> snd ` set (tags db)"
    using that by (simp add: db1_def insert_or_ignore_tag_again)
  show ?thesis
    unfolding r1 r2 fst_conv snd_conv using one old same t2 by blast
qed

theorem insertTagIfAbsent_idempotent_witness:
  "''go'' \<noteq> [] \<and> ''python'' \<noteq> [] \<and> distinct (map snd (tags loop_db)) \<and>
   fst (insertTagIfAbsent None None ''go'' loop_db) = Tag_id 3 \<and>
   fst (insertTagIfAbsent None None ''go'' (snd (insertTagIfAbsent None None ''go'' loop_db))) = Tag_id 3 \<and>
   tags (snd (insertTagIfAbsent None None ''go'' loop_db)) = [(1, ''python''), (2, ''basics''), (3, ''go'')] \<and>
   tags (snd (insertTagIfAbsent None None ''go'' (snd (insertTagIfAbsent None None ''go'' loop_db)))) =
     [(1, ''python''), (2, ''basics''), (3, ''go'')] \<and>
   (1, ''python'') \<in> set (tags loop_db) \<and>
   fst (insertTagIfAbsent None None ''python'' loop_db) = Tag_id 1 \<and>
   fst (insertTagIfAbsent None None ''python'' (snd (insertTagIfAbsent None None ''python'' loop_db))) = Tag_id 1 \<and>
   tags (snd (insertTagIfAbsent None None ''python'' loop_db)) = tags loop_db \<and>
   snippets (snd (insertTagIfAbsent None None ''python'' loop_db)) = snippets loop_db \<and>
   snippet_tags (snd (insertTagIfAbsent None None ''python'' loop_db)) = snippet_tags loop_db"
proof -
  have n: "''go'' \<noteq> []" "''python'' \<noteq> []" by simp_all
  have d: "distinct (map snd (tags loop_db))" by (simp add: loop_db_def)
  have p: "(1, ''python'') \<in> set (tags loop_db)" by (simp add: loop_db_def)
  then have p': "''python'' \<in> snd ` set (tags loop_db)" by force
  have g: "tags (snd (insertTagIfAbsent None None ''go'' loop_db)) = [(1, ''python''), (2, ''basics''), (3, ''go'')]"
    by code_simp
  note go = insertTagIfAbsent_idempotent [OF n(1) d]
  note py = insertTagIfAbsent_idempotent [OF n(2) d]
  from go obtain i where i: "fst (insertTagIfAbsent None None ''go'' loop_db) = Tag_id i"
    "fst (insertTagIfAbsent None None ''go'' (snd (insertTagIfAbsent None None ''go'' loop_db))) = Tag_id i"
    "filter (\<lambda>t. snd t = ''go'') (tags (snd (insertTagIfAbsent None None ''go'' loop_db))) = [(i, ''go'')]"
    by blast
  from i(3) have "i = 3" unfolding g by simp
  with i have g1: "fst (insertTagIfAbsent None None ''go'' loop_db) = Tag_id 3"
    "fst (insertTagIfAbsent None None ''go'' (snd (insertTagIfAbsent None None ''go'' loop_db))) = Tag_id 3"
    by simp_all
  from go have g2: "tags (snd (insertTagIfAbsent None None ''go'' (snd (insertTagIfAbsent None None ''go'' loop_db)))) =
     [(1, ''python''), (2, ''basics''), (3, ''go'')]"
    unfolding g by blast
  from py obtain j where j: "fst (insertTagIfAbsent None None ''python'' loop_db) = Tag_id j"
    "fst (insertTagIfAbsent None None ''python'' (snd (insertTagIfAbsent None None ''python'' loop_db))) = Tag_id j"
    "\<forall>k. (k, ''python'') \<in> set (tags loop_db) \<longrightarrow> k = j"
    by blast
  from j(3) p have "j = 1" by auto
  with j have p1: "fst (insertTagIfAbsent None None ''python'' loop_db) = Tag_id 1"
    "fst (insertTagIfAbsent None None ''python'' (snd (insertTagIfAbsent None None ''python'' loop_db))) = Tag_id 1"
    by simp_all
  from py p' have p2: "tags (snd (insertTagIfAbsent None None ''python'' loop_db)) = tags loop_db"
    "snippets (snd (insertTagIfAbsent None None ''python'' loop_db)) = snippets loop_db"
    "snippet_tags (snd (insertTagIfAbsent None None ''python'' loop_db)) = snippet_tags loop_db"
    by blast+
  show ?thesis
    by (intro conjI) (fact n d g g1 g2 p p1 p2)+
qed

text \<open>The counter: after the ignored insert of \<^verbatim>\<open>python\<close> the next new tag gets the id 4,
  not 3.\<close>

lemma ignored_insert_advances_counter:
  "insertTagIfAbsent None None ''python'' loop_db = (Tag_id 1, loop_db\<lparr> tags_seq := 3 \<rparr>) \<and>
   insertTagIfAbsent None None ''go'' (loop_db\<lparr> tags_seq := 3 \<rparr>) =
     (Tag_id 4, loop_db\<lparr> tags := tags loop_db @ [(4, ''go'')], tags_seq := 4 \<rparr>)"
  by code_simp

subsection \<open>Deleting\<close>

lemma deleteSnippet_keeps_links_and_tags:
  "snippet_tags (snd (deleteSnippet rowid_of err ident db)) = snippet_tags db \<and>
   tags (snd (deleteSnippet rowid_of err ident db)) = tags db"
  by (simp add: deleteSnippet_def delete_snippet_rows_def createConnection_def split: option.splits)

text \<open>
  C6 says that deleting a snippet removes its rows of \<^verbatim>\<open>snippet_tags\<close> and keeps the tag
  rows. The tag rows are kept (lemma above), but so are the link rows: the connection
  that \<^verbatim>\<open>deleteSnippet\<close> opens never enables foreign keys, so \<^verbatim>\<open>ON DELETE CASCADE\<close> does
  not run. Deleting snippet 1 of \<open>loop_db\<close>, which has two tags, removes the snippet row
  and leaves both link rows.
\<close>

theorem deleteSnippet_leaves_links:
  "deleteSnippet decimal_rowid None ''1'' loop_db =
     (Inr \<lparr> success = True, changes = 1 \<rparr>,
      \<lparr> snippets = [], tags = [(1, ''python''), (2, ''basics'')],
        snippet_tags = [(1, 1), (1, 2)], snippets_seq = 1, tags_seq = 2 \<rparr>)"
  by code_simp

text \<open>
  C8, as the code has it. The controller answers with the validation error exactly when
  \<^verbatim>\<open>isNaN(id)\<close> holds; every decimal numeral passes. For an id that passes it asks the
  store and, when the store does not fail, answers 404 exactly when no row had that id
  and 200 otherwise, and the matching snippet rows are gone.
\<close>

theorem deleteSnippet_controller_cases:
  "(isNaN ident \<longrightarrow>
      deleteSnippet_controller rowid_of err ident db = (Status400 ''Invalid snippet ID'', db)) \<and>
   (is_digits ident \<longrightarrow> \<not> isNaN ident) \<and>
   (\<not> isNaN ident \<longrightarrow>
      deleteSnippet_controller rowid_of None ident db =
        (if \<exists>s \<in> set (snippets db). rowid_of ident = Some (s_id s)
         then Status200_deleted else Status404 ''Snippet not found'',
         db\<lparr> snippets := filter (\<lambda>s. rowid_of ident \<noteq> Some (s_id s)) (snippets db) \<rparr>))"
proof -
  have "length (filter (\<lambda>s. rowid_of ident = Some (s_id s)) (snippets db)) = 0
          \<longleftrightarrow> \<not> (\<exists>s \<in> set (snippets db). rowid_of ident = Some (s_id s))"
    by (simp add: filter_empty_conv)
  then show ?thesis
    by (simp add: deleteSnippet_controller_def deleteSnippet_def delete_snippet_rows_def
        createConnection_def digits_not_NaN Let_def)
qed

theorem deleteSnippet_controller_cases_witness:
  "isNaN ''abc'' \<and>
   deleteSnippet_controller decimal_rowid None ''abc'' loop_db = (Status400 ''Invalid snippet ID'', loop_db) \<and>
   is_digits ''1'' \<and> \<not> isNaN ''1'' \<and>
   deleteSnippet_controller decimal_rowid None ''1'' loop_db = (Status200_deleted, loop_db\<lparr> snippets := [] \<rparr>) \<and>
   is_digits ''7'' \<and>
   deleteSnippet_controller decimal_rowid None ''7'' loop_db = (Status404 ''Snippet not found'', loop_db)"
proof -
  have a: "isNaN ''abc''" by code_simp
  have b: "is_digits ''1''" "is_digits ''7''" by code_simp+
  have c: "decimal_rowid ''1'' = Some 1" "decimal_rowid ''7'' = Some 7" by code_simp+
  note t = deleteSnippet_controller_cases [of _ decimal_rowid None loop_db]
  from t [of "''abc''"] a
  have 1: "deleteSnippet_controller decimal_rowid None ''abc'' loop_db = (Status400 ''Invalid snippet ID'', loop_db)"
    by blast
  from t [of "''1''"] b have n1: "\<not> isNaN ''1''" by blast
  from t [of "''7''"] b have n7: "\<not> isNaN ''7''" by blast
  from t [of "''1''"] n1 c
  have 2: "deleteSnippet_controller decimal_rowid None ''1'' loop_db = (Status200_deleted, loop_db\<lparr> snippets := [] \<rparr>)"
    by (simp add: loop_db_def)
  from t [of "''7''"] n7 c
  have 3: "deleteSnippet_controller decimal_rowid None ''7'' loop_db = (Status404 ''Snippet not found'', loop_db)"
    by (simp add: loop_db_def)
  from a b n1 1 2 3 show ?thesis by (simp only: simp_thms)
qed

text \<open>
  C8 as stated fails: \<^verbatim>\<open>'0'\<close> and \<^verbatim>\<open>'-5'\<close> are not positive integers, yet they are numeric,
  pass the check and reach the store, and the answer is 404, not the validation error.
\<close>

theorem zero_id_passes_validation:
  "\<not> isNaN ''0'' \<and> \<not> isNaN ''-5'' \<and>
   deleteSnippet_controller decimal_rowid None ''0'' loop_db = (Status404 ''Snippet not found'', loop_db) \<and>
   deleteSnippet_controller decimal_rowid None ''-5'' loop_db = (Status404 ''Snippet not found'', loop_db)"
  by code_simp

subsection \<open>Listing without search text\<close>

lemma non_null_append: "non_null (xs @ ys) = non_null xs @ non_null ys"
  by (induction xs rule: non_null.induct) auto

lemma non_null_concat: "non_null (concat xss) = concat (map non_null xss)"
  by (induction xss) (auto simp: non_null_append)

lemma non_null_Some: "non_null (map (\<lambda>t. Some (f t)) ts) = map f ts"
  by (induction ts) auto

lemma non_null_join_tags:
  "non_null (join_tags db tid) = map snd (filter (\<lambda>t. fst t = tid) (tags db))"
proof (cases "filter (\<lambda>t. fst t = tid) (tags db)")
  case Nil
  then show ?thesis by (simp add: join_tags_def)
next
  case (Cons t ts)
  then show ?thesis
    using non_null_Some [of snd "t # ts"] by (simp add: join_tags_def)
qed

lemma non_null_join_links: "non_null (join_links db sid) = linked_names db sid"
proof (cases "filter (\<lambda>l. fst l = sid) (snippet_tags db)")
  case Nil
  then show ?thesis by (simp add: join_links_def linked_names_def)
next
  case (Cons l ls)
  have "non_null (concat (map (\<lambda>l. join_tags db (snd l)) (l # ls))) =
        concat (map (\<lambda>l. map snd (filter (\<lambda>t. fst t = snd l) (tags db))) (l # ls))"
    unfolding non_null_concat map_map comp_def non_null_join_tags ..
  with Cons show ?thesis by (simp add: join_links_def linked_names_def)
qed

lemma set_join_links_Some:
  "Some n \<in> set (join_links db sid) \<longleftrightarrow> n \<in> set (linked_names db sid)"
proof -
  have "Some n \<in> set vs \<longleftrightarrow> n \<in> set (non_null vs)" for vs :: "string option list"
    by (induction vs rule: non_null.induct) auto
  then show ?thesis by (simp add: non_null_join_links)
qed

text \<open>Grouping the rows of a join that lists the snippets one after the other.\<close>

lemma group_by_id_joined:
  "distinct (map s_id ss) \<Longrightarrow>
   group_by_id (concat (map (\<lambda>s. map (Pair s) (f s)) ss)) =
     map (\<lambda>s. (s, group_concat (f s))) (filter (\<lambda>s. f s \<noteq> []) ss)"
proof (induction ss)
  case Nil
  then show ?case by simp
next
  case (Cons s ss)
  let ?rest = "concat (map (\<lambda>s. map (Pair s) (f s)) ss)"
  have other: "s_id (fst y) \<noteq> s_id s" if "y \<in> set ?rest" for y
    using that Cons.prems by (auto simp: image_iff)
  then have same: "filter (\<lambda>y. s_id (fst y) = s_id s) ?rest = []"
    and diff: "filter (\<lambda>y. s_id (fst y) \<noteq> s_id s) ?rest = ?rest"
    by (simp_all add: filter_empty_conv filter_id_conv)
  from Cons have IH: "group_by_id ?rest = map (\<lambda>s. (s, group_concat (f s))) (filter (\<lambda>s. f s \<noteq> []) ss)"
    by simp
  show ?case
  proof (cases "f s")
    case Nil
    with IH show ?thesis by simp
  next
    case (Cons v vs)
    have "filter (\<lambda>y. s_id (fst y) = s_id s) (map (Pair s) vs @ ?rest) = map (Pair s) vs"
      by (simp add: same filter_id_conv)
    moreover have "filter (\<lambda>y. s_id (fst y) \<noteq> s_id s) (map (Pair s) vs @ ?rest) = ?rest"
      by (simp add: diff filter_empty_conv)
    ultimately have "group_by_id ((s, v) # map (Pair s) vs @ ?rest) =
        (s, group_concat (v # vs)) # group_by_id ?rest"
      by (simp add: comp_def)
    with Cons IH show ?thesis by simp
  qed
qed

lemma filter_joined:
  "filter P (joined db) =
     concat (map (\<lambda>s. map (Pair s) (filter (\<lambda>v. P (s, v)) (join_links db (s_id s)))) (snippets db))"
  by (simp add: joined_def filter_concat filter_map comp_def)

lemma select_snippets_all:
  assumes "distinct (map s_id (snippets db))"
  shows "select_snippets db [] =
     order_by_created_at_desc (map (\<lambda>s. (s, group_concat (join_links db (s_id s)))) (snippets db))"
proof -
  have "filter (\<lambda>s. join_links db (s_id s) \<noteq> []) (snippets db) = snippets db"
    by (simp add: join_links_nonempty filter_id_conv)
  then show ?thesis
    using group_by_id_joined [OF assms, of "\<lambda>s. join_links db (s_id s)"]
    by (simp add: select_snippets_def joined_def)
qed

lemma split_comma_nonempty: "split_comma s \<noteq> []"
  by (induction s) (auto split: list.splits)

lemma split_comma_plain: "CHR '','' \<notin> set n \<Longrightarrow> split_comma n = [n]"
  by (induction n) auto

lemma split_comma_append:
  "CHR '','' \<notin> set n \<Longrightarrow> split_comma (n @ CHR '','' # s) = n # split_comma s"
  by (induction n) auto

lemma split_join_comma:
  "\<forall>m \<in> set (n # ns). CHR '','' \<notin> set m \<Longrightarrow> split_comma (join_comma n ns) = n # ns"
  by (induction n ns rule: join_comma.induct) (auto simp: split_comma_plain split_comma_append)

lemma join_comma_empty: "join_comma n ns = [] \<longleftrightarrow> n = [] \<and> ns = []"
  by (cases ns) auto

text \<open>What the callback makes of the aggregate of a list of names.\<close>

lemma parse_group_concat:
  assumes "\<forall>m \<in> set (non_null vs). CHR '','' \<notin> set m" and "non_null vs \<noteq> [[]]"
  shows "r_tags (parse_row (s, group_concat vs)) = non_null vs"
proof (cases "non_null vs")
  case Nil
  then show ?thesis by (simp add: parse_row_def group_concat_def)
next
  case (Cons n ns)
  with assms have "join_comma n ns \<noteq> []" by (simp add: join_comma_empty)
  moreover from assms Cons have "split_comma (join_comma n ns) = n # ns"
    by (intro split_join_comma) simp
  ultimately show ?thesis using Cons by (simp add: parse_row_def group_concat_def)
qed

lemma names_of_tag_distinct:
  "distinct (map snd ts) \<Longrightarrow> distinct (map snd (filter P ts))"
  by (rule distinct_map_filter)

lemma name_determines_tag:
  assumes "distinct (map snd ts)" "t \<in> set ts" "t' \<in> set ts" "snd t = snd t'"
  shows "t = t'"
  using assms by (simp add: distinct_map inj_on_def)

lemma distinct_names_of_links:
  assumes names: "distinct (map snd ts)"
    and "distinct ls" and "\<forall>l \<in> set ls. fst l = sid"
  shows "distinct (concat (map (\<lambda>l. map snd (filter (\<lambda>t. fst t = snd l) ts)) ls))"
  using assms(2,3)
proof (induction ls)
  case Nil
  then show ?case by simp
next
  case (Cons l ls)
  let ?f = "\<lambda>l. map snd (filter (\<lambda>t. fst t = snd l) ts)"
  have "n \<notin> set (concat (map ?f ls))" if n: "n \<in> set (?f l)" for n
  proof
    assume "n \<in> set (concat (map ?f ls))"
    then obtain l' where l': "l' \<in> set ls" "n \<in> set (?f l')" by auto
    from n obtain t where t: "t \<in> set ts" "fst t = snd l" "snd t = n" by auto
    from l' obtain t' where t': "t' \<in> set ts" "fst t' = snd l'" "snd t' = n" by auto
    from names t t' have "t = t'" by (intro name_determines_tag [of ts]) simp_all
    with t t' have "snd l = snd l'" by simp
    moreover from Cons.prems l' have "fst l = fst l'" by simp
    ultimately have "l = l'" by (simp add: prod_eq_iff)
    with Cons.prems l' show False by simp
  qed
  then have "set (?f l) \<inter> set (concat (map ?f ls)) = {}" by blast
  moreover from Cons have "distinct (concat (map ?f ls))" by simp
  moreover have "distinct (?f l)" using names by (rule names_of_tag_distinct)
  ultimately show ?case by simp
qed

lemma distinct_linked_names:
  assumes "wf_db db"
  shows "distinct (linked_names db sid)"
proof -
  from assms have "distinct (map snd (tags db))" "distinct (snippet_tags db)"
    by (simp_all add: wf_db_def)
  then show ?thesis
    unfolding linked_names_def by (intro distinct_names_of_links [where sid = sid]) simp_all
qed

lemma sorted_insert_desc:
  "sorted_wrt (\<lambda>a b. s_created_at (fst b) \<le> s_created_at (fst a)) xs \<Longrightarrow>
   sorted_wrt (\<lambda>a b. s_created_at (fst b) \<le> s_created_at (fst a)) (insert_desc r xs)"
proof (induction xs)
  case Nil
  then show ?case by simp
next
  case (Cons x xs)
  have "set (insert_desc r xs) = insert r (set xs)"
    by (metis mset_insert_desc set_mset_add_mset_insert set_mset_mset)
  with Cons show ?case by (auto simp: less_imp_le intro: order_trans)
qed

lemma sorted_order_by:
  "sorted_wrt (\<lambda>a b. s_created_at (fst b) \<le> s_created_at (fst a)) (order_by_created_at_desc rows)"
  unfolding order_by_created_at_desc_def by (induction rows) (auto simp: sorted_insert_desc)

lemma row_of_parse_row: "row_of (parse_row r) = fst r"
  by (simp add: row_of_def parse_row_def)

text \<open>
  C7, as the code has it. Without search text, on a database that satisfies its
  constraints, the listing holds every stored snippet once, with its columns, newest
  \<^verbatim>\<open>created_at\<close> first; and for every listed snippet whose linked tag names contain no
  comma, and which is not linked to the empty name alone, the reported tag list has no
  duplicates and holds exactly the names of the tags that its link rows lead to.
\<close>

theorem listing_without_search:
  assumes wf: "wf_db db" and res: "getAllSnippets None db [] = Inr rs"
  shows "mset (map row_of rs) = mset (snippets db) \<and>
         sorted_wrt (\<lambda>a b. r_created_at b \<le> r_created_at a) rs \<and>
         (\<forall>r \<in> set rs.
            (\<forall>n \<in> set (linked_names db (r_id r)). CHR '','' \<notin> set n) \<and>
            linked_names db (r_id r) \<noteq> [[]] \<longrightarrow>
            distinct (r_tags r) \<and> set (r_tags r) = set (linked_names db (r_id r)))"
proof -
  let ?g = "\<lambda>s. (s, group_concat (join_links db (s_id s)))"
  let ?rows = "order_by_created_at_desc (map ?g (snippets db))"
  from wf have "distinct (map s_id (snippets db))" by (simp add: wf_db_def)
  with res have rs: "rs = map parse_row ?rows"
    by (simp add: getAllSnippets_def select_snippets_all)
  have "map row_of rs = map fst ?rows"
    by (simp add: rs row_of_parse_row comp_def)
  then have "mset (map row_of rs) = mset (map fst (map ?g (snippets db)))"
    by (simp only: mset_map mset_order_by)
  then have 1: "mset (map row_of rs) = mset (snippets db)"
    by (simp add: comp_def)
  have 2: "sorted_wrt (\<lambda>a b. r_created_at b \<le> r_created_at a) rs"
    using sorted_order_by [of "map ?g (snippets db)"]
    by (simp add: rs sorted_wrt_map parse_row_def)
  have 3: "distinct (r_tags r) \<and> set (r_tags r) = set (linked_names db (r_id r))"
    if r: "r \<in> set rs"
      and plain: "\<forall>n \<in> set (linked_names db (r_id r)). CHR '','' \<notin> set n"
      and ne: "linked_names db (r_id r) \<noteq> [[]]" for r
  proof -
    from r obtain s where s: "r = parse_row (?g s)"
      by (auto simp: rs set_order_by)
    then have id: "r_id r = s_id s" by (simp add: parse_row_def)
    have "r_tags r = non_null (join_links db (s_id s))"
      unfolding s using plain ne
      by (intro parse_group_concat) (simp_all add: non_null_join_links id)
    then have "r_tags r = linked_names db (r_id r)"
      by (simp add: non_null_join_links id)
    with wf show ?thesis by (simp add: distinct_linked_names)
  qed
  from 1 2 3 show ?thesis by blast
qed

theorem listing_without_search_witness:
  "wf_db lone_db \<and>
   mset (map row_of (projr (getAllSnippets None lone_db []))) = mset (snippets lone_db) \<and>
   map r_created_at (projr (getAllSnippets None lone_db [])) = [20, 10] \<and>
   map r_tags (projr (getAllSnippets None lone_db [])) = [[], [''python'', ''basics'']] \<and>
   map (\<lambda>r. linked_names lone_db (r_id r)) (projr (getAllSnippets None lone_db []))
     = [[], [''python'', ''basics'']]"
proof -
  have wf: "wf_db lone_db" by code_simp
  have res: "getAllSnippets None lone_db [] = Inr (projr (getAllSnippets None lone_db []))"
    by (simp add: getAllSnippets_def)
  have a: "map r_created_at (projr (getAllSnippets None lone_db [])) = [20, 10]" by code_simp
  have b: "map r_tags (projr (getAllSnippets None lone_db [])) = [[], [''python'', ''basics'']]"
    by code_simp
  have c: "map (\<lambda>r. linked_names lone_db (r_id r)) (projr (getAllSnippets None lone_db []))
     = [[], [''python'', ''basics'']]"
    by code_simp
  have m: "mset (map row_of (projr (getAllSnippets None lone_db []))) = mset (snippets lone_db)"
    using listing_without_search [OF wf res] by (rule conjunct1)
  show ?thesis
    by (intro conjI) (fact wf m a b c)+
qed

text \<open>
  C7 as stated fails for a tag name with a comma: \<^verbatim>\<open>GROUP_CONCAT\<close> joins the names with
  commas and the callback splits at every comma, so the snippet with the tags \<^verbatim>\<open>a,b\<close> and
  \<^verbatim>\<open>a\<close> is reported with \<^verbatim>\<open>a\<close>, \<^verbatim>\<open>b\<close>, \<^verbatim>\<open>a\<close>: a duplicate, and not the names of its tags.
\<close>

theorem comma_in_tag_name_is_split:
  "getAllSnippets None comma_db [] =
     Inr [\<lparr> r_id = 1, r_title = ''Loop'', r_code = ''while (true) {}'', r_language = ''javascript'',
            r_created_at = 10, r_tags = [''a'', ''b'', ''a''] \<rparr>] \<and>
   linked_names comma_db 1 = [''a,b'', ''a''] \<and> wf_db comma_db"
  by code_simp

subsection \<open>Listing with a search text\<close>

lemma starts_with_ci_iff:
  "starts_with_ci q t \<longleftrightarrow> (\<exists>post. map lower t = map lower q @ post)"
  by (induction q t rule: starts_with_ci.induct) auto

lemma icontains_iff:
  "icontains q t \<longleftrightarrow> (\<exists>pre post. map lower t = pre @ map lower q @ post)"
proof (induction t)
  case Nil
  then show ?case by simp
next
  case (Cons c cs)
  show ?case
  proof
    assume "icontains q (c # cs)"
    then consider "starts_with_ci q (c # cs)" | "icontains q cs" by auto
    then show "\<exists>pre post. map lower (c # cs) = pre @ map lower q @ post"
    proof cases
      case 1
      then obtain post where "map lower (c # cs) = [] @ map lower q @ post"
        by (auto simp: starts_with_ci_iff)
      then show ?thesis by blast
    next
      case 2
      with Cons obtain pre post where "map lower cs = pre @ map lower q @ post" by blast
      then have "map lower (c # cs) = (lower c # pre) @ map lower q @ post" by simp
      then show ?thesis by blast
    qed
  next
    assume "\<exists>pre post. map lower (c # cs) = pre @ map lower q @ post"
    then obtain pre post where e: "map lower (c # cs) = pre @ map lower q @ post" by blast
    show "icontains q (c # cs)"
    proof (cases pre)
      case Nil
      with e have "starts_with_ci q (c # cs)" by (auto simp: starts_with_ci_iff)
      then show ?thesis by simp
    next
      case (Cons x xs)
      with e have "map lower cs = xs @ map lower q @ post" by simp
      with Cons.IH have "icontains q cs" by blast
      then show ?thesis by simp
    qed
  qed
qed

lemma until_nul_free: "nul_free s \<Longrightarrow> until_nul s = s"
  by (simp add: nul_free_def until_nul_def list_all_iff)

lemma like_text_percent: "like_text [CHR ''%''] t"
proof (induction "length t" arbitrary: t rule: less_induct)
  case less
  show ?case
  proof (cases t)
    case Nil
    then show ?thesis by simp
  next
    case (Cons c cs)
    have "length (skip_char (c # cs)) < length t"
      using Cons by (auto simp: less_Suc_eq_le intro: le_trans [OF length_dropWhile_le])
    with less Cons show ?thesis by simp
  qed
qed

lemma like_text_prefix:
  "CHR ''%'' \<notin> set q \<Longrightarrow> CHR ''_'' \<notin> set q \<Longrightarrow>
   like_text (q @ [CHR ''%'']) t \<longleftrightarrow> starts_with_ci q t"
proof (induction q t rule: starts_with_ci.induct)
  case (1 t)
  then show ?case by (simp add: like_text_percent)
next
  case (2 p ps)
  then show ?case by auto
next
  case (3 p ps c cs)
  then show ?case by auto
qed

lemma lower_cont: "is_cont c \<Longrightarrow> lower c = c"
  by (simp add: is_cont_def lower_def)

lemma cont_lower: "is_cont (lower c) \<longleftrightarrow> is_cont c"
  by (auto simp: is_cont_def lower_def Let_def)

lemma icontains_skip_cont:
  assumes "q \<noteq> []" and "\<not> is_cont (hd q)"
  shows "icontains q (dropWhile is_cont t) \<longleftrightarrow> icontains q t"
proof (induction t)
  case Nil
  then show ?case by simp
next
  case (Cons x xs)
  show ?case
  proof (cases "is_cont x")
    case True
    from assms obtain p ps where q: "q = p # ps" "\<not> is_cont p" by (cases q) auto
    have "lower p \<noteq> lower x"
      using True q(2) cont_lower [of p] lower_cont [of x] by metis
    then have "\<not> starts_with_ci q (x # xs)" by (simp add: q)
    with True Cons show ?thesis by simp
  next
    case False
    then show ?thesis by simp
  qed
qed

lemma icontains_skip_char:
  assumes "q \<noteq> []" and "\<not> is_cont (hd q)"
  shows "icontains q (skip_char (c # cs)) \<longleftrightarrow> icontains q cs"
  using icontains_skip_cont [OF assms, of cs] by simp

lemma like_text_contains:
  assumes "CHR ''%'' \<notin> set q" "CHR ''_'' \<notin> set q" "q \<noteq> []" "\<not> is_cont (hd q)"
  shows "like_text (CHR ''%'' # q @ [CHR ''%'']) t \<longleftrightarrow> icontains q t"
proof (induction "length t" arbitrary: t rule: less_induct)
  case less
  show ?case
  proof (cases t)
    case Nil
    have "like_text (q @ [CHR ''%'']) [] \<longleftrightarrow> q = []"
      using like_text_prefix [OF assms(1,2), of "[]"] by (cases q) simp_all
    with Nil show ?thesis by simp
  next
    case (Cons c cs)
    have "length (skip_char (c # cs)) < length t"
      using Cons by (auto simp: less_Suc_eq_le intro: le_trans [OF length_dropWhile_le])
    then have "like_text (CHR ''%'' # q @ [CHR ''%'']) (skip_char (c # cs)) \<longleftrightarrow> icontains q (skip_char (c # cs))"
      by (rule less)
    then show ?thesis
      using like_text_prefix [OF assms(1,2), of "c # cs"] icontains_skip_char [OF assms(3,4), of c cs]
      by (simp add: Cons)
  qed
qed

lemma like_contains:
  assumes "CHR ''%'' \<notin> set q" "CHR ''_'' \<notin> set q" "q \<noteq> []" "\<not> is_cont (hd q)"
    and "nul_free q" "nul_free t"
  shows "like (CHR ''%'' # q @ [CHR ''%'']) t \<longleftrightarrow> icontains q t"
proof -
  have "nul_free (CHR ''%'' # q @ [CHR ''%''])"
    using assms(5) by (simp add: nul_free_def)
  then show ?thesis
    using like_text_contains [OF assms(1-4)] assms(6) by (simp only: like_def until_nul_free)
qed

lemma select_snippets_search:
  assumes "distinct (map s_id (snippets db))" and "q \<noteq> []"
  shows "select_snippets db q =
     order_by_created_at_desc
       (map (\<lambda>s. (s, group_concat (filter (\<lambda>v. where_like (CHR ''%'' # q @ [CHR ''%'']) (s, v))
                                            (join_links db (s_id s)))))
            (filter (\<lambda>s. \<exists>v \<in> set (join_links db (s_id s)). where_like (CHR ''%'' # q @ [CHR ''%'']) (s, v))
                    (snippets db)))"
proof -
  let ?W = "where_like (CHR ''%'' # q @ [CHR ''%''])"
  have "(filter (\<lambda>v. ?W (s, v)) vs \<noteq> []) = (\<exists>v \<in> set vs. ?W (s, v))" for s vs
    by (simp add: filter_empty_conv)
  then show ?thesis
    using group_by_id_joined [OF assms(1), of "\<lambda>s. filter (\<lambda>v. ?W (s, v)) (join_links db (s_id s))"] assms(2)
    by (simp add: select_snippets_def filter_joined)
qed

lemma where_like_matches:
  assumes q: "CHR ''%'' \<notin> set q" "CHR ''_'' \<notin> set q" "q \<noteq> []" "\<not> is_cont (hd q)" "nul_free q"
    and s: "nul_free (s_title s)" "nul_free (s_code s)" "nul_free (s_language s)"
    and t: "list_all (\<lambda>t. nul_free (snd t)) (tags db)"
  shows "(\<exists>v \<in> set (join_links db (s_id s)). where_like (CHR ''%'' # q @ [CHR ''%'']) (s, v))
           \<longleftrightarrow> matches db q s"
proof -
  let ?P = "CHR ''%'' # q @ [CHR ''%'']"
  let ?col = "icontains q (s_title s) \<or> icontains q (s_code s) \<or> icontains q (s_language s)"
  have n: "nul_free n" if "n \<in> set (linked_names db (s_id s))" for n
    using that t by (auto simp: linked_names_def list_all_iff)
  have w: "where_like ?P (s, v) \<longleftrightarrow> ?col \<or> (case v of None \<Rightarrow> False | Some n \<Rightarrow> icontains q n)"
    if "v \<in> set (join_links db (s_id s))" for v
  proof (cases v)
    case None
    then show ?thesis by (simp add: where_like_def like_contains [OF q] s)
  next
    case (Some m)
    with that have "nul_free m" by (simp add: n set_join_links_Some)
    with Some show ?thesis by (simp add: where_like_def like_contains [OF q] s)
  qed
  have ne: "\<exists>v. v \<in> set (join_links db (s_id s))"
    using join_links_nonempty [of db "s_id s"] by (metis last_in_set)
  have "(\<exists>v \<in> set (join_links db (s_id s)). case v of None \<Rightarrow> False | Some n \<Rightarrow> icontains q n)
          \<longleftrightarrow> (\<exists>n \<in> set (linked_names db (s_id s)). icontains q n)"
    (is "?L \<longleftrightarrow> ?R")
  proof
    assume ?L
    then obtain n where "Some n \<in> set (join_links db (s_id s))" "icontains q n"
      by (auto split: option.splits)
    then show ?R by (auto simp: set_join_links_Some)
  next
    assume ?R
    then obtain n where "Some n \<in> set (join_links db (s_id s))" "icontains q n"
      by (auto simp: set_join_links_Some)
    then show ?L by force
  qed
  moreover have "(\<exists>v \<in> set (join_links db (s_id s)). where_like ?P (s, v))
          \<longleftrightarrow> (\<exists>v \<in> set (join_links db (s_id s)).
                ?col \<or> (case v of None \<Rightarrow> False | Some n \<Rightarrow> icontains q n))"
    using w by blast
  ultimately show ?thesis
    using ne unfolding matches_def list_ex_iff by blast
qed

text \<open>
  C4, as the code has it. The search text is not empty, holds neither \<^verbatim>\<open>%\<close> nor \<^verbatim>\<open>_\<close>
  nor a NUL character and, as every UTF-8 text, does not start with a continuation
  byte; the database satisfies its constraints and none of its titles, codes, languages
  and tag names holds a NUL character; the statement runs without an error of the store
  (SQLite refuses a pattern of more than 50000 bytes, for one). Then the listing holds
  exactly the snippets in which the text is a substring, up to ASCII case, of the title,
  the code, the language or the name of a linked tag, each of them once. A match through
  a tag suffices, and a snippet without tags is listed when one of its three columns
  matches.
\<close>

theorem listing_with_search:
  assumes wf: "wf_db db"
    and q: "q \<noteq> []" "CHR ''%'' \<notin> set q" "CHR ''_'' \<notin> set q" "\<not> is_cont (hd q)" "nul_free q"
    and texts: "nul_free_db db"
    and res: "getAllSnippets None db q = Inr rs"
  shows "mset (map row_of rs) = mset (filter (matches db q) (snippets db))"
proof -
  let ?W = "where_like (CHR ''%'' # q @ [CHR ''%''])"
  let ?g = "\<lambda>s. (s, group_concat (filter (\<lambda>v. ?W (s, v)) (join_links db (s_id s))))"
  from wf have d: "distinct (map s_id (snippets db))" by (simp add: wf_db_def)
  from texts have t: "list_all (\<lambda>t. nul_free (snd t)) (tags db)" by (simp add: nul_free_db_def)
  have "(\<exists>v \<in> set (join_links db (s_id s)). ?W (s, v)) \<longleftrightarrow> matches db q s"
    if "s \<in> set (snippets db)" for s
  proof -
    from texts that have "nul_free (s_title s)" "nul_free (s_code s)" "nul_free (s_language s)"
      by (simp_all add: nul_free_db_def list_all_iff)
    then show ?thesis by (rule where_like_matches [OF q(2,3,1,4,5) _ _ _ t])
  qed
  then have f: "filter (\<lambda>s. \<exists>v \<in> set (join_links db (s_id s)). ?W (s, v)) (snippets db)
             = filter (matches db q) (snippets db)"
    by (intro filter_cong) simp_all
  from res have rs: "rs = map parse_row (order_by_created_at_desc (map ?g (filter (matches db q) (snippets db))))"
    unfolding getAllSnippets_def select_snippets_search [OF d q(1)] f by simp
  have "map row_of rs = map fst (order_by_created_at_desc (map ?g (filter (matches db q) (snippets db))))"
    by (simp add: rs row_of_parse_row comp_def)
  then have "mset (map row_of rs) = mset (map fst (map ?g (filter (matches db q) (snippets db))))"
    by (simp only: mset_map mset_order_by)
  then show ?thesis by (simp add: comp_def)
qed

theorem listing_with_search_witness:
  "wf_db lone_db \<and> ''ARR'' \<noteq> [] \<and> CHR ''%'' \<notin> set ''ARR'' \<and> CHR ''_'' \<notin> set ''ARR'' \<and>
   \<not> is_cont (hd ''ARR'') \<and> nul_free ''ARR'' \<and> nul_free_db lone_db \<and>
   filter (matches lone_db ''ARR'') (snippets lone_db) = [lone_snippet] \<and>
   map row_of (projr (getAllSnippets None lone_db ''ARR'')) = [lone_snippet] \<and>
   mset (map row_of (projr (getAllSnippets None lone_db ''ARR''))) = mset [lone_snippet]"
proof -
  have wf: "wf_db lone_db" by code_simp
  have q: "''ARR'' \<noteq> []" "CHR ''%'' \<notin> set ''ARR''" "CHR ''_'' \<notin> set ''ARR''"
    "\<not> is_cont (hd ''ARR'')" "nul_free ''ARR''"
    by (simp_all add: is_cont_def nul_free_def)
  have texts: "nul_free_db lone_db" by code_simp
  have res: "getAllSnippets None lone_db ''ARR'' = Inr (projr (getAllSnippets None lone_db ''ARR''))"
    by (simp add: getAllSnippets_def)
  have f: "filter (matches lone_db ''ARR'') (snippets lone_db) = [lone_snippet]" by code_simp
  have r: "map row_of (projr (getAllSnippets None lone_db ''ARR'')) = [lone_snippet]" by code_simp
  have m: "mset (map row_of (projr (getAllSnippets None lone_db ''ARR''))) = mset [lone_snippet]"
    using listing_with_search [OF wf q texts res] by (simp only: f)
  show ?thesis
    by (intro conjI) (fact wf q texts f r m)+
qed

text \<open>
  What the hypotheses on the NUL character exclude: \<^verbatim>\<open>LIKE\<close> reads the pattern up to its
  first NUL, so a search text of one NUL character gives the pattern \<^verbatim>\<open>%\<close> and lists a
  snippet that holds no NUL anywhere.
\<close>

lemma nul_matches_every_text:
  "map r_id (projr (getAllSnippets None wildcard_db [char_of (0 :: nat)])) = [1] \<and>
   \<not> matches wildcard_db [char_of (0 :: nat)] (hd (snippets wildcard_db))"
  by code_simp

text \<open>
  C4 as stated fails for a search text with a wildcard: the text goes into the \<^verbatim>\<open>LIKE\<close>
  pattern as it is, so \<^verbatim>\<open>_\<close> matches any one character, and the search for \<^verbatim>\<open>_\<close> lists a
  snippet that holds no underscore anywhere.
\<close>

theorem underscore_matches_any_character:
  "getAllSnippets None wildcard_db ''_'' =
     Inr [\<lparr> r_id = 1, r_title = ''Loop'', r_code = ''while (true) {}'', r_language = ''javascript'',
            r_created_at = 10, r_tags = [] \<rparr>] \<and>
   \<not> icontains ''_'' ''Loop'' \<and> \<not> icontains ''_'' ''while (true) {}'' \<and>
   \<not> icontains ''_'' ''javascript'' \<and> linked_names wildcard_db 1 = []"
  by code_simp

subsection \<open>The schedule of createSnippet\<close>

text \<open>One statement pending, or two; then the end of a call, where the promise is settled
  and the one \<^verbatim>\<open>COMMIT\<close> or \<^verbatim>\<open>ROLLBACK\<close> is pending, with \<^verbatim>\<open>BEGIN TRANSACTION\<close> if that
  has not run yet; and the start of a call, up to the snippet insert.\<close>

lemma run_done: "pending st = [] \<Longrightarrow> run env st = st"
  by (subst run.simps) simp

lemma run_next:
  "pending st \<noteq> [] \<Longrightarrow>
   run env st = run env (step env (pending st ! chosen env st)
                           (st\<lparr> pending := others (chosen env st) (pending st), tick := Suc (tick st) \<rparr>))"
  by (subst run.simps) simp

lemma chosen_less: "pending st \<noteq> [] \<Longrightarrow> chosen env st < length (pending st)"
  by (simp add: chosen_def)

lemma run_one:
  assumes "pending st = [s]"
  shows "run env st = run env (step env s (st\<lparr> pending := [], tick := Suc (tick st) \<rparr>))"
proof -
  from assms have "chosen env st = 0" by (simp add: chosen_def)
  with assms show ?thesis by (simp add: run_next others_def)
qed

lemma run_two:
  assumes "pending st = [s, t]"
  shows "run env st = run env (step env s (st\<lparr> pending := [t], tick := Suc (tick st) \<rparr>)) \<or>
         run env st = run env (step env t (st\<lparr> pending := [s], tick := Suc (tick st) \<rparr>))"
proof -
  from assms chosen_less [of st env] have "chosen env st = 0 \<or> chosen env st = 1" by auto
  then show ?thesis
  proof
    assume "chosen env st = 0"
    with assms show ?thesis by (simp add: run_next others_def)
  next
    assume "chosen env st = 1"
    with assms show ?thesis by (simp add: run_next others_def)
  qed
qed

lemma run_commit_open:
  assumes "settled st = Some v" and "pending st = [COMMIT]" and "in_tx st"
  shows "settled (run env st) = Some v \<and> closed (run env st) = work st"
proof -
  from assms(2) have "run env st = run env (step env COMMIT (st\<lparr> pending := [], tick := Suc (tick st) \<rparr>))"
    by (rule run_one)
  with assms(1,3) show ?thesis by (simp add: run_done closed_def)
qed

lemma run_commit:
  assumes "settled st = Some v" and "pending st = (if in_tx st then [COMMIT] else [BEGIN, COMMIT])"
  shows "settled (run env st) = Some v \<and> closed (run env st) = work st"
proof (cases "in_tx st")
  case True
  with assms show ?thesis by (simp add: run_commit_open)
next
  case False
  with assms(2) have p: "pending st = [BEGIN, COMMIT]" by simp
  from run_two [OF p, of env] show ?thesis
  proof
    define nxt where "nxt = step env BEGIN (st\<lparr> pending := [COMMIT], tick := Suc (tick st) \<rparr>)"
    assume "run env st = run env (step env BEGIN (st\<lparr> pending := [COMMIT], tick := Suc (tick st) \<rparr>))"
    then have r: "run env st = run env nxt" by (simp add: nxt_def)
    have "settled nxt = Some v" "pending nxt = [COMMIT]" "in_tx nxt" "work nxt = work st"
      using False assms(1) by (simp_all add: nxt_def)
    with run_commit_open [of nxt v env] show ?thesis by (simp add: r)
  next
    assume "run env st = run env (step env COMMIT (st\<lparr> pending := [BEGIN], tick := Suc (tick st) \<rparr>))"
    with False assms(1) show ?thesis by (simp add: run_done closed_def error_event_def)
  qed
qed

lemma run_rollback_open:
  assumes "settled st = Some v" and "pending st = [ROLLBACK]" and "in_tx st"
  shows "settled (run env st) = Some v \<and> closed (run env st) = saved st"
proof -
  from assms(2) have "run env st = run env (step env ROLLBACK (st\<lparr> pending := [], tick := Suc (tick st) \<rparr>))"
    by (rule run_one)
  with assms(1,3) show ?thesis by (simp add: run_done closed_def)
qed

lemma run_rollback:
  assumes "settled st = Some v" and "pending st = (if in_tx st then [ROLLBACK] else [BEGIN, ROLLBACK])"
  shows "settled (run env st) = Some v \<and> closed (run env st) = (if in_tx st then saved st else work st)"
proof (cases "in_tx st")
  case True
  with assms show ?thesis by (simp add: run_rollback_open)
next
  case False
  with assms(2) have p: "pending st = [BEGIN, ROLLBACK]" by simp
  from run_two [OF p, of env] show ?thesis
  proof
    define nxt where "nxt = step env BEGIN (st\<lparr> pending := [ROLLBACK], tick := Suc (tick st) \<rparr>)"
    assume "run env st = run env (step env BEGIN (st\<lparr> pending := [ROLLBACK], tick := Suc (tick st) \<rparr>))"
    then have r: "run env st = run env nxt" by (simp add: nxt_def)
    have "settled nxt = Some v" "pending nxt = [ROLLBACK]" "in_tx nxt" "saved nxt = work st"
      using False assms(1) by (simp_all add: nxt_def)
    with run_rollback_open [of nxt v env] False show ?thesis by (simp add: r)
  next
    assume "run env st = run env (step env ROLLBACK (st\<lparr> pending := [BEGIN], tick := Suc (tick st) \<rparr>))"
    with False assms(1) show ?thesis by (simp add: run_done closed_def error_event_def)
  qed
qed

lemma run_start:
  fixes env db0
  defines "init \<equiv> \<lparr> work = db0, saved = db0, in_tx = False, pending = [BEGIN, InsertSnippet],
                     snippetId = 0, processedTags = 0, tagErrors = [], settled = None, clock = 0,
                     tick = 0, uncaught = None \<rparr>"
  shows "\<exists>st. run env init = run env (step env InsertSnippet st) \<and>
              work st = db0 \<and> saved st = db0 \<and> pending st = (if in_tx st then [] else [BEGIN]) \<and>
              settled st = None \<and> tagErrors st = [] \<and> processedTags st = 0 \<and> clock st = 0"
proof -
  have p: "pending init = [BEGIN, InsertSnippet]" by (simp add: init_def)
  from run_two [OF p, of env] show ?thesis
  proof
    define st1 where "st1 = step env BEGIN (init\<lparr> pending := [InsertSnippet], tick := Suc (tick init) \<rparr>)"
    define st where "st = st1\<lparr> pending := [], tick := Suc (tick st1) \<rparr>"
    assume "run env init = run env (step env BEGIN (init\<lparr> pending := [InsertSnippet], tick := Suc (tick init) \<rparr>))"
    then have "run env init = run env st1" by (simp add: st1_def)
    moreover have "pending st1 = [InsertSnippet]" by (simp add: st1_def init_def)
    ultimately have "run env init = run env (step env InsertSnippet st)"
      by (simp add: run_one st_def)
    moreover have "work st = db0" "saved st = db0" "pending st = (if in_tx st then [] else [BEGIN])"
      "settled st = None" "tagErrors st = []" "processedTags st = 0" "clock st = 0"
      by (simp_all add: st_def st1_def init_def)
    ultimately show ?thesis by blast
  next
    define st where "st = init\<lparr> pending := [BEGIN], tick := Suc (tick init) \<rparr>"
    assume "run env init = run env (step env InsertSnippet (init\<lparr> pending := [BEGIN], tick := Suc (tick init) \<rparr>))"
    then have "run env init = run env (step env InsertSnippet st)" by (simp add: st_def)
    moreover have "work st = db0" "saved st = db0" "pending st = (if in_tx st then [] else [BEGIN])"
      "settled st = None" "tagErrors st = []" "processedTags st = 0" "clock st = 0"
      by (simp_all add: st_def init_def)
    ultimately show ?thesis by blast
  qed
qed

lemma createSnippet_insert_fails:
  assumes "fs 0 = Some e"
  shows "createSnippet pick fs now snippetData db0 = (Some (Rejected e), db0)"
proof -
  define env where "env = \<lparr> env_pick = pick, env_faults = fs, env_conn = createConnection, env_now = now,
                     env_snippetData = snippetData \<rparr>"
  from run_start [of env db0] obtain st
    where r: "createSnippet pick fs now snippetData db0 =
                (settled (run env (step env InsertSnippet st)), closed (run env (step env InsertSnippet st)))"
      and st: "work st = db0" "saved st = db0" "pending st = (if in_tx st then [] else [BEGIN])"
        "settled st = None" "clock st = 0"
    by (auto simp: createSnippet_def env_def Let_def)
  define nxt where "nxt = step env InsertSnippet st"
  have "insert_snippet (env_faults env (clock st)) (env_now env) (d_title (env_snippetData env))
           (d_code (env_snippetData env)) (or_javascript (d_language (env_snippetData env))) (work st) = Inl e"
    using assms st(5) by (simp add: insert_snippet_def env_def)
  then have n: "settled nxt = Some (Rejected e)"
    "pending nxt = (if in_tx nxt then [ROLLBACK] else [BEGIN, ROLLBACK])"
    "saved nxt = db0" "work nxt = db0"
    using st by (simp_all add: nxt_def settle_def)
  from run_rollback [OF n(1,2), of env] n(3,4) show ?thesis
    unfolding r nxt_def [symmetric] by simp
qed

lemma createSnippet_no_tags:
  assumes "tag_list snippetData = []"
    and "insert_snippet (fs 0) now (d_title snippetData) (d_code snippetData)
           (or_javascript (d_language snippetData)) db0 = Inr (sid, db1)"
  shows "createSnippet pick fs now snippetData db0 =
           (Some (Resolved \<lparr> c_id = sid, c_data = snippetData\<lparr> d_tags := Some [] \<rparr> \<rparr>), db1)"
proof -
  define env where "env = \<lparr> env_pick = pick, env_faults = fs, env_conn = createConnection, env_now = now,
                     env_snippetData = snippetData \<rparr>"
  from run_start [of env db0] obtain st
    where r: "createSnippet pick fs now snippetData db0 =
                (settled (run env (step env InsertSnippet st)), closed (run env (step env InsertSnippet st)))"
      and st: "work st = db0" "saved st = db0" "pending st = (if in_tx st then [] else [BEGIN])"
        "settled st = None" "clock st = 0"
    by (auto simp: createSnippet_def env_def Let_def)
  define nxt where "nxt = step env InsertSnippet st"
  have "insert_snippet (env_faults env (clock st)) (env_now env) (d_title (env_snippetData env))
           (d_code (env_snippetData env)) (or_javascript (d_language (env_snippetData env))) (work st)
          = Inr (sid, db1)"
    using assms(2) st by (simp add: env_def)
  then have n: "settled nxt = Some (Resolved \<lparr> c_id = sid, c_data = snippetData\<lparr> d_tags := Some [] \<rparr> \<rparr>)"
    "pending nxt = (if in_tx nxt then [COMMIT] else [BEGIN, COMMIT])"
    "work nxt = db1"
    using st assms(1) by (simp_all add: nxt_def settle_def env_def)
  from run_commit [OF n(1,2), of env] n(3) show ?thesis
    unfolding r nxt_def [symmetric] by simp
qed

subsection \<open>Validation in createSnippet\<close>

text \<open>
  C5, as the code has it. When the title or the code is missing or the empty string, the
  controller answers 400 and hands the database back as it was, whatever the store would
  have done: no statement is run. Any other title and code pass, also when they hold only
  white space: the snippet insert is run, as its failure shows in the answer. Both hold
  in every schedule.
\<close>

theorem createSnippet_controller_validation:
  "(falsy (d_title body) \<or> falsy (d_code body) \<longrightarrow>
      createSnippet_controller pick fs now body db = (Status400 ''Title and code are required'', db)) \<and>
   (\<not> falsy (d_title body) \<and> \<not> falsy (d_code body) \<and> fs 0 = Some e \<longrightarrow>
      createSnippet_controller pick fs now body db = (Next_error e, db))"
  by (auto simp: createSnippet_controller_def createSnippet_insert_fails)

theorem createSnippet_controller_validation_witness:
  "falsy (d_title empty_title_body) \<and>
   createSnippet_controller insert_before_begin (\<lambda>k. Some (SQLITE_FAILURE k)) 5 empty_title_body loop_db =
     (Status400 ''Title and code are required'', loop_db) \<and>
   \<not> falsy (d_title blank_title_body) \<and> \<not> falsy (d_code blank_title_body) \<and>
   createSnippet_controller insert_before_begin (\<lambda>k. Some (SQLITE_FAILURE k)) 5 blank_title_body loop_db =
     (Next_error (SQLITE_FAILURE 0), loop_db)"
proof -
  have a: "falsy (d_title empty_title_body)"
    by (simp add: falsy_def empty_title_body_def)
  have b: "\<not> falsy (d_title blank_title_body)" "\<not> falsy (d_code blank_title_body)"
    by (simp_all add: falsy_def blank_title_body_def)
  show ?thesis
    using a b
      createSnippet_controller_validation [of empty_title_body insert_before_begin "\<lambda>k. Some (SQLITE_FAILURE k)" 5 loop_db "SQLITE_FAILURE 0"]
      createSnippet_controller_validation [of blank_title_body insert_before_begin "\<lambda>k. Some (SQLITE_FAILURE k)" 5 loop_db "SQLITE_FAILURE 0"]
    by simp
qed

text \<open>
  C5 as stated fails for a title of two spaces: nothing is trimmed, the request passes
  validation and the row is stored, in every schedule.
\<close>

theorem blank_title_is_stored:
  "\<forall>pick. createSnippet_controller pick (\<lambda>k. None) 5 blank_title_body empty_db =
     (Status201_created
        \<lparr> c_id = 1,
          c_data = \<lparr> d_title = Some ''  '', d_code = Some ''c'', d_language = Some ''javascript'',
                     d_tags = Some [] \<rparr> \<rparr>,
      \<lparr> snippets = [\<lparr> s_id = 1, s_title = ''  '', s_code = ''c'', s_language = ''javascript'',
                      s_created_at = 5 \<rparr>],
        tags = [], snippet_tags = [], snippets_seq = 1, tags_seq = 0 \<rparr>)"
proof
  fix pick
  let ?d = "\<lparr> d_title = Some ''  '', d_code = Some ''c'', d_language = Some ''javascript'',
              d_tags = Some [] \<rparr>"
  have "createSnippet pick (\<lambda>k. None) 5 ?d empty_db =
     (Some (Resolved \<lparr> c_id = 1, c_data = ?d\<lparr> d_tags := Some [] \<rparr> \<rparr>),
      \<lparr> snippets = [\<lparr> s_id = 1, s_title = ''  '', s_code = ''c'', s_language = ''javascript'',
                      s_created_at = 5 \<rparr>],
        tags = [], snippet_tags = [], snippets_seq = 1, tags_seq = 0 \<rparr>)"
    by (rule createSnippet_no_tags)
       (simp_all add: tag_list_def insert_snippet_def or_javascript_def empty_db_def next_rowid_def)
  then show "createSnippet_controller pick (\<lambda>k. None) 5 blank_title_body empty_db =
     (Status201_created
        \<lparr> c_id = 1,
          c_data = \<lparr> d_title = Some ''  '', d_code = Some ''c'', d_language = Some ''javascript'',
                     d_tags = Some [] \<rparr> \<rparr>,
      \<lparr> snippets = [\<lparr> s_id = 1, s_title = ''  '', s_code = ''c'', s_language = ''javascript'',
                      s_created_at = 5 \<rparr>],
        tags = [], snippet_tags = [], snippets_seq = 1, tags_seq = 0 \<rparr>)"
    by (simp add: createSnippet_controller_def blank_title_body_def falsy_def or_javascript_def)
qed

subsection \<open>A failing tag statement\<close>

text \<open>
  C1 does not hold of the code. \<^verbatim>\<open>createSnippet\<close> hands \<^verbatim>\<open>BEGIN TRANSACTION\<close> and the
  snippet insert to a connection that it has not serialized, so the two are pending
  together and the insert may run first. It is committed on its own then, and the
  \<^verbatim>\<open>ROLLBACK\<close> that follows a failed tag statement does not reach it. The request with
  three tags, on a store that rejects the insert of the second tag: in the schedule
  that runs the snippet insert before \<^verbatim>\<open>BEGIN TRANSACTION\<close>, and everything else in the
  order in which it was handed over, the call is rejected with the failure of the store
  and the database keeps the snippet row of the attempt (the tag rows and link rows of
  the attempt are rolled back). In the schedule that also runs \<^verbatim>\<open>BEGIN TRANSACTION\<close> and
  the insert in the order in which they were handed over, the same call is rejected and
  leaves the database as it was.
\<close>

theorem rejected_call_keeps_snippet_row:
  "createSnippet insert_before_begin reject_second_tag 30 three_tags_body loop_db =
     (Some (Rejected (SQLITE_FAILURE 7)),
      loop_db\<lparr> snippets := snippets loop_db @
                  [\<lparr> s_id = 2, s_title = ''t'', s_code = ''c'', s_language = ''javascript'',
                     s_created_at = 30 \<rparr>],
               snippets_seq := 2 \<rparr>) \<and>
   createSnippet in_order reject_second_tag 30 three_tags_body loop_db =
     (Some (Rejected (SQLITE_FAILURE 7)), loop_db)"
  by code_simp

subsection \<open>createSnippet without failures\<close>

text \<open>What the statements of the tag chains do to the names on their way.\<close>

lemma stage_names_insert_or_ignore_tag:
  "ready W sid s \<Longrightarrow> stage_names (insert_or_ignore_tag t W) s = stage_names W s"
  by (cases s) (simp_all add: rows_of_id_insert_or_ignore_tag)

lemma in_flight_insert_or_ignore_tag:
  "list_all (ready W sid) ps \<Longrightarrow> in_flight (insert_or_ignore_tag t W) ps = in_flight W ps"
  by (induction ps) (simp_all add: in_flight_def stage_names_insert_or_ignore_tag [where sid = sid])

lemma linked_names_insert_or_ignore_tag:
  assumes "list_all (\<lambda>l. fst l = sid \<longrightarrow> snd l \<in> fst ` set (tags W)) (snippet_tags W)"
  shows "linked_names (insert_or_ignore_tag t W) sid = linked_names W sid"
proof -
  have "map (\<lambda>l. map snd (filter (\<lambda>r. fst r = snd l) (tags (insert_or_ignore_tag t W))))
            (filter (\<lambda>l. fst l = sid) (snippet_tags W))
      = map (\<lambda>l. map snd (filter (\<lambda>r. fst r = snd l) (tags W)))
            (filter (\<lambda>l. fst l = sid) (snippet_tags W))"
  proof (rule map_cong [OF refl])
    fix l assume "l \<in> set (filter (\<lambda>l. fst l = sid) (snippet_tags W))"
    with assms have "snd l \<in> fst ` set (tags W)" by (simp add: list_all_iff)
    then show "map snd (filter (\<lambda>r. fst r = snd l) (tags (insert_or_ignore_tag t W)))
             = map snd (filter (\<lambda>r. fst r = snd l) (tags W))"
      by (simp only: rows_of_id_insert_or_ignore_tag)
  qed
  then show ?thesis
    unfolding linked_names_def frame_insert_or_ignore_tag by (rule arg_cong [where f = concat])
qed

lemma ready_insert_or_ignore_tag:
  "ready W sid s \<Longrightarrow> ready (insert_or_ignore_tag t W) sid s"
  using ids_insert_or_ignore_tag [of W t]
  by (cases s) (auto simp: names_insert_or_ignore_tag)

lemma linked_names_link:
  "linked_names (W\<lparr> snippet_tags := snippet_tags W @ [(sid, b)] \<rparr>) sid =
     linked_names W sid @ map snd (filter (\<lambda>r. fst r = b) (tags W))"
  by (simp add: linked_names_def)

lemma stage_names_link:
  "stage_names (W\<lparr> snippet_tags := ls \<rparr>) = stage_names W"
proof
  fix s show "stage_names (W\<lparr> snippet_tags := ls \<rparr>) s = stage_names W s"
    by (cases s) simp_all
qed

lemma in_flight_link:
  "in_flight (W\<lparr> snippet_tags := ls \<rparr>) ps = in_flight W ps"
  by (simp add: in_flight_def stage_names_link)

lemma ready_link: "ready (W\<lparr> snippet_tags := ls \<rparr>) sid = ready W sid"
proof
  fix s show "ready (W\<lparr> snippet_tags := ls \<rparr>) sid s = ready W sid s"
    by (cases s) simp_all
qed

lemma linked_name_of_link:
  assumes "(sid, b) \<in> set (snippet_tags W)" and "(b, n) \<in> set (tags W)"
  shows "n \<in> set (linked_names W sid)"
  using assms by (force simp: linked_names_def)

lemma in_flight_append [simp]: "in_flight W (A @ B) = in_flight W A @ in_flight W B"
  by (simp add: in_flight_def)

lemma in_flight_Cons [simp]: "in_flight W (s # B) = stage_names W s @ in_flight W B"
  by (simp add: in_flight_def)

lemma in_flight_Nil [simp]: "in_flight W [] = []"
  by (simp add: in_flight_def)

lemma to_insert_append [simp]: "to_insert (A @ B) = to_insert A @ to_insert B"
  by (simp add: to_insert_def)

lemma to_insert_Cons [simp]: "to_insert (s # B) = insert_name s @ to_insert B"
  by (simp add: to_insert_def)

lemma to_insert_Nil [simp]: "to_insert [] = []"
  by (simp add: to_insert_def)

lemma store_okI:
  assumes "list_all (ready W sid) ps"
    and "distinct (map fst (tags W))" and "distinct (map snd (tags W))"
    and "\<exists>ext. tags W = tags db0 @ ext"
    and "mset (map snd (tags W)) + mset (filter (\<lambda>t. t \<notin> snd ` set (tags db0)) (to_insert ps))
       = mset (map snd (tags db0)) + mset (filter (\<lambda>t. t \<notin> snd ` set (tags db0)) tgs)"
    and "mset (in_flight W ps) + mset (linked_names W sid) = mset tgs"
    and "list_all (\<lambda>l. fst l = sid \<longrightarrow> snd l \<in> fst ` set (tags W)) (snippet_tags W)"
    and "snippets W = rows"
    and "\<exists>ls. snippet_tags W = snippet_tags db0 @ ls \<and> list_all (\<lambda>l. fst l = sid) ls"
  shows "store_ok tgs db0 sid rows W ps"
  unfolding store_ok_def by (intro conjI) (fact assms)+

lemma store_okD:
  assumes "store_ok tgs db0 sid rows W ps"
  shows "list_all (ready W sid) ps"
    and "distinct (map fst (tags W))" and "distinct (map snd (tags W))"
    and "\<exists>ext. tags W = tags db0 @ ext"
    and "mset (map snd (tags W)) + mset (filter (\<lambda>t. t \<notin> snd ` set (tags db0)) (to_insert ps))
       = mset (map snd (tags db0)) + mset (filter (\<lambda>t. t \<notin> snd ` set (tags db0)) tgs)"
    and "mset (in_flight W ps) + mset (linked_names W sid) = mset tgs"
    and "list_all (\<lambda>l. fst l = sid \<longrightarrow> snd l \<in> fst ` set (tags W)) (snippet_tags W)"
    and "snippets W = rows"
    and "\<exists>ls. snippet_tags W = snippet_tags db0 @ ls \<and> list_all (\<lambda>l. fst l = sid) ls"
  using assms unfolding store_ok_def by blast+

lemma count_twice:
  assumes "mset xs + mset ys = mset zs" and "distinct zs" and "n \<in> set xs" and "n \<in> set ys"
  shows False
proof -
  from assms(1) have "count (mset xs) n + count (mset ys) n = count (mset zs) n"
    by (metis count_union)
  moreover have "1 \<le> count (mset xs) n" "1 \<le> count (mset ys) n"
    using assms(3,4) by (simp_all add: Suc_le_eq)
  moreover have "count (mset zs) n \<le> 1"
    using assms(2) by (simp add: distinct_count_atmost_1)
  ultimately show False by simp
qed

lemma store_begin:
  "store_ok tgs db0 sid rows W (A @ BEGIN # B) \<Longrightarrow> store_ok tgs db0 sid rows W (A @ B)"
  by (simp add: store_ok_def)

lemma store_insert:
  assumes ok: "store_ok tgs db0 sid rows W (A @ InsertTag t # B)" and d: "distinct tgs"
  shows "store_ok tgs db0 sid rows (insert_or_ignore_tag t W) (A @ B @ [SelectTag t])"
proof (rule store_okI)
  let ?W = "insert_or_ignore_tag t W"
  let ?new = "\<lambda>t. t \<notin> snd ` set (tags db0)"
  note f = store_okD [OF ok]
  from f(1) have r: "list_all (ready W sid) (A @ B)" by simp
  then show "list_all (ready ?W sid) (A @ B @ [SelectTag t])"
    by (auto simp: list_all_iff ready_insert_or_ignore_tag names_insert_or_ignore_tag)
  show "distinct (map fst (tags ?W))" using f(2) by (rule distinct_ids_insert_or_ignore_tag)
  show "distinct (map snd (tags ?W))" using f(3) by (rule distinct_names_insert_or_ignore_tag)
  from f(4) obtain ext where ext: "tags W = tags db0 @ ext" by blast
  then show "\<exists>ext. tags ?W = tags db0 @ ext" by (simp add: tags_insert_or_ignore_tag)
  show "mset (map snd (tags ?W)) + mset (filter ?new (to_insert (A @ B @ [SelectTag t])))
      = mset (map snd (tags db0)) + mset (filter ?new tgs)"
  proof (cases "t \<in> snd ` set (tags W)")
    case True
    have "\<not> ?new t"
    proof
      assume n: "?new t"
      have "mset (map snd (tags W)) + mset (filter ?new (to_insert (A @ InsertTag t # B)))
              = mset (map snd (tags db0) @ filter ?new tgs)"
        using f(5) by simp
      moreover have "distinct (map snd (tags db0) @ filter ?new tgs)"
        using f(3) d ext by auto
      moreover have "t \<in> set (map snd (tags W))" using True by simp
      moreover have "t \<in> set (filter ?new (to_insert (A @ InsertTag t # B)))" using n by simp
      ultimately show False by (rule count_twice)
    qed
    with f(5) True show ?thesis by (simp add: tags_insert_or_ignore_tag)
  next
    case False
    with ext have "?new t" by auto
    with f(5) False show ?thesis by (simp add: tags_insert_or_ignore_tag ac_simps)
  qed
  from r have i: "in_flight ?W A = in_flight W A" "in_flight ?W B = in_flight W B"
    by (simp_all add: in_flight_insert_or_ignore_tag [where sid = sid])
  have l: "linked_names ?W sid = linked_names W sid"
    using f(7) by (rule linked_names_insert_or_ignore_tag)
  show "mset (in_flight ?W (A @ B @ [SelectTag t])) + mset (linked_names ?W sid) = mset tgs"
    using f(6) by (simp add: i l ac_simps)
  show "list_all (\<lambda>l. fst l = sid \<longrightarrow> snd l \<in> fst ` set (tags ?W)) (snippet_tags ?W)"
    using f(7) ids_insert_or_ignore_tag [of W t]
    by (auto simp: list_all_iff frame_insert_or_ignore_tag)
  show "snippets ?W = rows" using f(8) by (simp add: frame_insert_or_ignore_tag)
  show "\<exists>ls. snippet_tags ?W = snippet_tags db0 @ ls \<and> list_all (\<lambda>l. fst l = sid) ls"
    using f(9) by (simp add: frame_insert_or_ignore_tag)
qed

lemma store_select:
  assumes ok: "store_ok tgs db0 sid rows W (A @ SelectTag t # B)"
  shows "\<exists>b. select_tag_id t (tags W) = Some b \<and> store_ok tgs db0 sid rows W (A @ B @ [LinkTag sid b])"
proof -
  note f = store_okD [OF ok]
  from f(1) have "t \<in> snd ` set (tags W)" by simp
  then obtain b where b: "select_tag_id t (tags W) = Some b"
    using select_tag_id_None [of t "tags W"] by auto
  then have row: "(b, t) \<in> set (tags W)" by (rule select_tag_id_Some)
  then have n: "filter (\<lambda>r. fst r = b) (tags W) = [(b, t)]"
    using f(2) by (intro one_row_of_id)
  have "store_ok tgs db0 sid rows W (A @ B @ [LinkTag sid b])"
  proof (rule store_okI)
    show "list_all (ready W sid) (A @ B @ [LinkTag sid b])"
      using f(1) row by (auto simp: image_iff intro: bexI [of _ "(b, t)"])
    show "mset (map snd (tags W)) + mset (filter (\<lambda>t. t \<notin> snd ` set (tags db0)) (to_insert (A @ B @ [LinkTag sid b])))
        = mset (map snd (tags db0)) + mset (filter (\<lambda>t. t \<notin> snd ` set (tags db0)) tgs)"
      using f(5) by simp
    show "mset (in_flight W (A @ B @ [LinkTag sid b])) + mset (linked_names W sid) = mset tgs"
      using f(6) by (simp add: n ac_simps)
  qed (fact f)+
  with b show ?thesis by blast
qed

lemma store_link:
  assumes ok: "store_ok tgs db0 sid rows W (A @ LinkTag a b # B)" and d: "distinct tgs"
  shows "a = sid \<and> (sid, b) \<notin> set (snippet_tags W) \<and>
         store_ok tgs db0 sid rows (W\<lparr> snippet_tags := snippet_tags W @ [(sid, b)] \<rparr>) (A @ B)"
proof -
  let ?W = "W\<lparr> snippet_tags := snippet_tags W @ [(sid, b)] \<rparr>"
  note f = store_okD [OF ok]
  from f(1) have a: "a = sid" and "b \<in> fst ` set (tags W)" by simp_all
  then obtain n where row: "(b, n) \<in> set (tags W)" by auto
  then have n: "filter (\<lambda>r. fst r = b) (tags W) = [(b, n)]"
    using f(2) by (intro one_row_of_id)
  have fresh: "(sid, b) \<notin> set (snippet_tags W)"
  proof
    assume "(sid, b) \<in> set (snippet_tags W)"
    then have "n \<in> set (linked_names W sid)" using row by (rule linked_name_of_link)
    moreover have "n \<in> set (in_flight W (A @ LinkTag a b # B))" by (simp add: n)
    ultimately show False using f(6) d by (intro count_twice [of _ _ tgs n])
  qed
  have "store_ok tgs db0 sid rows ?W (A @ B)"
  proof (rule store_okI)
    show "list_all (ready ?W sid) (A @ B)"
      using f(1) by (simp add: ready_link)
    show "distinct (map fst (tags ?W))" using f(2) by simp
    show "distinct (map snd (tags ?W))" using f(3) by simp
    show "\<exists>ext. tags ?W = tags db0 @ ext" using f(4) by simp
    show "mset (map snd (tags ?W)) + mset (filter (\<lambda>t. t \<notin> snd ` set (tags db0)) (to_insert (A @ B)))
        = mset (map snd (tags db0)) + mset (filter (\<lambda>t. t \<notin> snd ` set (tags db0)) tgs)"
      using f(5) by simp
    show "mset (in_flight ?W (A @ B)) + mset (linked_names ?W sid) = mset tgs"
      using f(6) by (simp add: in_flight_link linked_names_link n a ac_simps)
    show "list_all (\<lambda>l. fst l = sid \<longrightarrow> snd l \<in> fst ` set (tags ?W)) (snippet_tags ?W)"
      using f(7) row by (auto simp: image_iff intro: bexI [of _ "(b, n)"])
    show "snippets ?W = rows" using f(8) by simp
    from f(9) obtain ls where "snippet_tags W = snippet_tags db0 @ ls" "list_all (\<lambda>l. fst l = sid) ls"
      by blast
    then have "snippet_tags ?W = snippet_tags db0 @ (ls @ [(sid, b)]) \<and> list_all (\<lambda>l. fst l = sid) (ls @ [(sid, b)])"
      by simp
    then show "\<exists>ls. snippet_tags ?W = snippet_tags db0 @ ls \<and> list_all (\<lambda>l. fst l = sid) ls"
      by blast
  qed
  with a fresh show ?thesis by blast
qed

lemma only_begin:
  "list_all (ready W sid) ps \<Longrightarrow> filter tag_stmt ps = [] \<Longrightarrow> ps = replicate (length (filter (\<lambda>s. s = BEGIN) ps)) BEGIN"
proof (induction ps)
  case Nil
  then show ?case by simp
next
  case (Cons s ps)
  then show ?case by (cases s) (simp_all split: if_splits)
qed

lemma step_tagging:
  assumes env: "\<forall>k. env_faults env k = None" "env_conn env = createConnection"
      "tag_list (env_snippetData env) = tgs" "distinct tgs"
    and inv: "tagging tgs db0 sid rows st" and p: "pending st = A @ s # B"
  shows "tagging tgs db0 sid rows (step env s (st\<lparr> pending := A @ B, tick := k \<rparr>)) \<or>
         committing tgs db0 sid rows (Resolved \<lparr> c_id = sid, c_data = env_snippetData env \<rparr>)
           (step env s (st\<lparr> pending := A @ B, tick := k \<rparr>))"
proof -
  from inv have c: "settled st = None" "tagErrors st = []" "snippetId st = sid"
    "length (filter (\<lambda>s. s = BEGIN) (pending st)) = (if in_tx st then 0 else 1)"
    "processedTags st + length (filter tag_stmt (pending st)) = length tgs"
    "processedTags st < length tgs"
    and ok: "store_ok tgs db0 sid rows (work st) (A @ s # B)"
    unfolding tagging_def p by simp_all
  from env(1) have none: "env_faults env (clock st) = None" by simp
  show ?thesis
  proof (cases s)
    case BEGIN
    with c(4) p have "\<not> in_tx st" by (auto split: if_splits)
    moreover have "store_ok tgs db0 sid rows (work st) (A @ B)"
      using ok unfolding BEGIN by (rule store_begin)
    ultimately have "tagging tgs db0 sid rows (step env s (st\<lparr> pending := A @ B, tick := k \<rparr>))"
      using c p BEGIN by (simp add: tagging_def)
    then show ?thesis ..
  next
    case InsertSnippet
    with store_okD(1) [OF ok] show ?thesis by simp
  next
    case (InsertTag t)
    have "store_ok tgs db0 sid rows (insert_or_ignore_tag t (work st)) (A @ B @ [SelectTag t])"
      using ok env(4) unfolding InsertTag by (rule store_insert)
    then have "tagging tgs db0 sid rows (step env s (st\<lparr> pending := A @ B, tick := k \<rparr>))"
      using c p InsertTag none by (simp add: tagging_def insert_tag_def)
    then show ?thesis ..
  next
    case (SelectTag t)
    from store_select [OF ok [unfolded SelectTag]] obtain b
      where b: "select_tag_id t (tags (work st)) = Some b"
        and "store_ok tgs db0 sid rows (work st) (A @ B @ [LinkTag sid b])" by blast
    then have "tagging tgs db0 sid rows (step env s (st\<lparr> pending := A @ B, tick := k \<rparr>))"
      using c p SelectTag none by (simp add: tagging_def select_tag_def)
    then show ?thesis ..
  next
    case (LinkTag a b)
    let ?W = "(work st)\<lparr> snippet_tags := snippet_tags (work st) @ [(sid, b)] \<rparr>"
    from store_link [OF ok [unfolded LinkTag] env(4)]
    have a: "a = sid" and fresh: "(sid, b) \<notin> set (snippet_tags (work st))"
      and ok': "store_ok tgs db0 sid rows ?W (A @ B)" by simp_all
    have link: "link_tag (env_conn env) (env_faults env (clock st)) a b (work st) = Inr ?W"
      using a fresh none env(2) by (simp add: link_tag_def createConnection_def)
    define mid where "mid = st\<lparr> pending := A @ B, tick := k, work := ?W,
                               processedTags := Suc (processedTags st), clock := Suc (clock st) \<rparr>"
    have st': "step env s (st\<lparr> pending := A @ B, tick := k \<rparr>) = checkCompletion env mid"
      by (simp add: LinkTag link mid_def)
    from c(5) p LinkTag have count: "Suc (processedTags st) + length (filter tag_stmt (A @ B)) = length tgs"
      by simp
    from c(4) p LinkTag have bg: "length (filter (\<lambda>s. s = BEGIN) (A @ B)) = (if in_tx st then 0 else 1)"
      by simp
    show ?thesis
    proof (cases "Suc (processedTags st) = length tgs")
      case True
      with count have "filter tag_stmt (A @ B) = []" by simp
      with store_okD(1) [OF ok'] have "A @ B = replicate (length (filter (\<lambda>s. s = BEGIN) (A @ B))) BEGIN"
        by (rule only_begin)
      with bg have ab: "A @ B = (if in_tx st then [] else [BEGIN])" by (simp split: if_splits)
      have "store_ok tgs db0 sid rows ?W []"
        using ok' ab by (auto simp: store_ok_def split: if_splits)
      then have "committing tgs db0 sid rows (Resolved \<lparr> c_id = sid, c_data = env_snippetData env \<rparr>)
                   (checkCompletion env mid)"
        using True c ab env(3)
        by (simp add: committing_def checkCompletion_def mid_def settle_def)
      then show ?thesis unfolding st' ..
    next
      case False
      with count have "Suc (processedTags st) < length tgs" by simp
      then have "tagging tgs db0 sid rows (checkCompletion env mid)"
        using False c count bg ok' env(3)
        by (simp add: tagging_def checkCompletion_def mid_def)
      then show ?thesis unfolding st' ..
    qed
  next
    case COMMIT
    with store_okD(1) [OF ok] show ?thesis by simp
  next
    case ROLLBACK
    with store_okD(1) [OF ok] show ?thesis by simp
  qed
qed

lemma run_tagging:
  assumes env: "\<forall>k. env_faults env k = None" "env_conn env = createConnection"
      "tag_list (env_snippetData env) = tgs" "distinct tgs"
  shows "tagging tgs db0 sid rows st \<Longrightarrow>
         settled (run env st) = Some (Resolved \<lparr> c_id = sid, c_data = env_snippetData env \<rparr>) \<and>
         store_ok tgs db0 sid rows (closed (run env st)) []"
  using env
proof (induction env st rule: run.induct)
  case (1 env st)
  note inv = \<open>tagging tgs db0 sid rows st\<close>
  note env = "1.prems"(2-5)
  from inv have "filter tag_stmt (pending st) \<noteq> []"
    by (auto simp: tagging_def)
  then have ne: "pending st \<noteq> []" by auto
  define i where "i = chosen env st"
  have i: "i < length (pending st)" unfolding i_def using ne by (rule chosen_less)
  define nxt where "nxt = step env (pending st ! i) (st\<lparr> pending := others i (pending st), tick := Suc (tick st) \<rparr>)"
  have r: "run env st = run env nxt"
    unfolding nxt_def i_def using ne by (rule run_next)
  have p: "pending st = take i (pending st) @ pending st ! i # drop (Suc i) (pending st)"
    using i by (rule id_take_nth_drop)
  from step_tagging [OF env inv p, of "Suc (tick st)"]
  have "tagging tgs db0 sid rows nxt \<or>
        committing tgs db0 sid rows (Resolved \<lparr> c_id = sid, c_data = env_snippetData env \<rparr>) nxt"
    by (simp add: nxt_def others_def)
  then show ?case
  proof
    assume "tagging tgs db0 sid rows nxt"
    from "1.IH" [OF ne this [unfolded nxt_def i_def] env] show ?thesis
      unfolding r nxt_def i_def .
  next
    assume "committing tgs db0 sid rows (Resolved \<lparr> c_id = sid, c_data = env_snippetData env \<rparr>) nxt"
    then have "settled nxt = Some (Resolved \<lparr> c_id = sid, c_data = env_snippetData env \<rparr>)"
      "store_ok tgs db0 sid rows (work nxt) []"
      "pending nxt = (if in_tx nxt then [COMMIT] else [BEGIN, COMMIT])"
      by (simp_all add: committing_def)
    with run_commit [of nxt _ env] show ?thesis unfolding r by simp
  qed
qed

lemma filter_begin_inserts: "filter (\<lambda>s. s = BEGIN) (map InsertTag ts) = []"
  by (induction ts) simp_all

lemma filter_tag_stmt_inserts: "filter tag_stmt (map InsertTag ts) = map InsertTag ts"
  by (induction ts) simp_all

lemma to_insert_inserts: "to_insert (map InsertTag ts) = ts"
  by (induction ts) simp_all

lemma in_flight_inserts: "in_flight W (map InsertTag ts) = ts"
  by (induction ts) simp_all

lemma ready_inserts: "list_all (ready W sid) (map InsertTag ts)"
  by (induction ts) simp_all

lemma insert_snippet_tagging:
  assumes wf: "wf_db db0"
    and data: "d_title (env_snippetData env) = Some title" "d_code (env_snippetData env) = Some code"
      "tag_list (env_snippetData env) = tgs" "tgs \<noteq> []"
    and none: "env_faults env (clock st) = None"
    and st: "work st = db0" "pending st = (if in_tx st then [] else [BEGIN])" "settled st = None"
      "tagErrors st = []" "processedTags st = 0"
  shows "tagging tgs db0 (next_rowid (snippets_seq db0) (map s_id (snippets db0)))
           (snippets db0 @
              [\<lparr> s_id = next_rowid (snippets_seq db0) (map s_id (snippets db0)), s_title = title,
                 s_code = code, s_language = or_javascript (d_language (env_snippetData env)),
                 s_created_at = env_now env \<rparr>])
           (step env InsertSnippet st)"
proof -
  define sid where "sid = next_rowid (snippets_seq db0) (map s_id (snippets db0))"
  define rows where "rows = snippets db0 @
              [\<lparr> s_id = sid, s_title = title,
                 s_code = code, s_language = or_javascript (d_language (env_snippetData env)),
                 s_created_at = env_now env \<rparr>]"
  define db1 where "db1 = db0\<lparr> snippets := rows, snippets_seq := sid \<rparr>"
  define pre where "pre = (if in_tx st then [] else [BEGIN])"
  have ins: "insert_snippet (env_faults env (clock st)) (env_now env) (d_title (env_snippetData env))
           (d_code (env_snippetData env)) (or_javascript (d_language (env_snippetData env))) (work st)
         = Inr (sid, db1)"
    by (simp add: insert_snippet_def none data st Let_def sid_def db1_def rows_def)
  have nxt: "step env InsertSnippet st =
               st\<lparr> work := db1, snippetId := sid, processedTags := 0, tagErrors := [],
                   pending := pre @ map InsertTag tgs, clock := Suc (clock st) \<rparr>"
    using data(3,4) st(2) by (simp add: ins pre_def)
  have nolink: "filter (\<lambda>l. fst l = sid) (snippet_tags db0) = []"
  proof -
    have "fst l \<noteq> sid" if "l \<in> set (snippet_tags db0)" for l
    proof -
      from wf that have "fst l \<le> snippets_seq db0" by (simp add: wf_db_def list_all_iff)
      moreover have "snippets_seq db0 < sid" unfolding sid_def by (rule next_rowid_fresh(1))
      ultimately show ?thesis by simp
    qed
    then show ?thesis by (simp add: filter_empty_conv)
  qed
  have pre: "list_all (ready db1 sid) pre" "to_insert pre = []" "in_flight db1 pre = []"
    "filter tag_stmt pre = []" "length (filter (\<lambda>s. s = BEGIN) pre) = (if in_tx st then 0 else 1)"
    by (simp_all add: pre_def)
  have ok: "store_ok tgs db0 sid rows db1 (pre @ map InsertTag tgs)"
  proof (rule store_okI)
    show "list_all (ready db1 sid) (pre @ map InsertTag tgs)"
      using pre(1) by (simp add: ready_inserts)
    show "distinct (map fst (tags db1))" "distinct (map snd (tags db1))"
      using wf by (simp_all add: db1_def wf_db_def)
    show "\<exists>ext. tags db1 = tags db0 @ ext" by (simp add: db1_def)
    show "mset (map snd (tags db1)) + mset (filter (\<lambda>t. t \<notin> snd ` set (tags db0)) (to_insert (pre @ map InsertTag tgs)))
        = mset (map snd (tags db0)) + mset (filter (\<lambda>t. t \<notin> snd ` set (tags db0)) tgs)"
      by (simp add: pre(2) to_insert_inserts db1_def)
    have "linked_names db1 sid = []"
      by (simp add: linked_names_def db1_def nolink)
    then show "mset (in_flight db1 (pre @ map InsertTag tgs)) + mset (linked_names db1 sid) = mset tgs"
      by (simp add: pre(3) in_flight_inserts)
    show "list_all (\<lambda>l. fst l = sid \<longrightarrow> snd l \<in> fst ` set (tags db1)) (snippet_tags db1)"
      using nolink by (auto simp: db1_def list_all_iff filter_empty_conv)
    show "snippets db1 = rows" by (simp add: db1_def)
    have "snippet_tags db1 = snippet_tags db0 @ [] \<and> list_all (\<lambda>l. fst l = sid) []"
      by (simp add: db1_def)
    then show "\<exists>ls. snippet_tags db1 = snippet_tags db0 @ ls \<and> list_all (\<lambda>l. fst l = sid) ls" ..
  qed
  have "tagging tgs db0 sid rows (step env InsertSnippet st)"
    unfolding nxt tagging_def
    using ok st(3,4,5) data(4) pre(4,5)
    by (simp add: filter_begin_inserts filter_tag_stmt_inserts)
  then show ?thesis by (simp only: sid_def rows_def)
qed

lemma run_createSnippet_tags:
  assumes wf: "wf_db db0"
    and data: "d_title snippetData = Some title" "d_code snippetData = Some code"
      "d_tags snippetData = Some tgs"
    and tgs: "tgs \<noteq> []" "distinct tgs"
    and ok: "\<forall>k. fs k = None"
  shows "fst (createSnippet pick fs now snippetData db0) =
           Some (Resolved \<lparr> c_id = next_rowid (snippets_seq db0) (map s_id (snippets db0)),
                            c_data = snippetData \<rparr>) \<and>
         store_ok tgs db0 (next_rowid (snippets_seq db0) (map s_id (snippets db0)))
           (snippets db0 @
              [\<lparr> s_id = next_rowid (snippets_seq db0) (map s_id (snippets db0)), s_title = title,
                 s_code = code, s_language = or_javascript (d_language snippetData),
                 s_created_at = now \<rparr>])
           (snd (createSnippet pick fs now snippetData db0)) []"
proof -
  define env where "env = \<lparr> env_pick = pick, env_faults = fs, env_conn = createConnection, env_now = now,
                     env_snippetData = snippetData \<rparr>"
  define init where "init = \<lparr> work = db0, saved = db0, in_tx = False, pending = [BEGIN, InsertSnippet],
                     snippetId = 0, processedTags = 0, tagErrors = [], settled = None, clock = 0,
                     tick = 0, uncaught = None \<rparr>"
  define sid where "sid = next_rowid (snippets_seq db0) (map s_id (snippets db0))"
  define rows where "rows = snippets db0 @
              [\<lparr> s_id = sid, s_title = title, s_code = code,
                 s_language = or_javascript (d_language snippetData), s_created_at = now \<rparr>]"
  have e: "\<forall>k. env_faults env k = None" "env_conn env = createConnection"
    "tag_list (env_snippetData env) = tgs" "distinct tgs"
    using ok data(3) tgs(2) by (simp_all add: env_def tag_list_def)
  have d: "d_title (env_snippetData env) = Some title" "d_code (env_snippetData env) = Some code"
    using data by (simp_all add: env_def)
  have c: "createSnippet pick fs now snippetData db0 = (settled (run env init), closed (run env init))"
    by (simp add: createSnippet_def env_def init_def Let_def)
  have first: "tagging tgs db0 sid rows (step env InsertSnippet st)"
    if "work st = db0" "pending st = (if in_tx st then [] else [BEGIN])" "settled st = None"
      "tagErrors st = []" "processedTags st = 0" for st
  proof -
    from e(1) have "env_faults env (clock st) = None" by simp
    from insert_snippet_tagging [OF wf d e(3) tgs(1) this that] show ?thesis
      by (simp add: sid_def rows_def env_def)
  qed
  have p: "pending init = [BEGIN, InsertSnippet]" by (simp add: init_def)
  have "\<exists>st. run env init = run env st \<and> tagging tgs db0 sid rows st"
    using run_two [OF p, of env]
  proof
    define st1 where "st1 = step env BEGIN (init\<lparr> pending := [InsertSnippet], tick := Suc (tick init) \<rparr>)"
    assume "run env init = run env (step env BEGIN (init\<lparr> pending := [InsertSnippet], tick := Suc (tick init) \<rparr>))"
    then have "run env init = run env st1" by (simp add: st1_def)
    moreover have p1: "pending st1 = [InsertSnippet]" by (simp add: st1_def init_def)
    ultimately have r: "run env init = run env (step env InsertSnippet (st1\<lparr> pending := [], tick := Suc (tick st1) \<rparr>))"
      by (simp add: run_one)
    have "tagging tgs db0 sid rows (step env InsertSnippet (st1\<lparr> pending := [], tick := Suc (tick st1) \<rparr>))"
      by (rule first) (simp_all add: st1_def init_def)
    with r show ?thesis by blast
  next
    assume r: "run env init = run env (step env InsertSnippet (init\<lparr> pending := [BEGIN], tick := Suc (tick init) \<rparr>))"
    have "tagging tgs db0 sid rows (step env InsertSnippet (init\<lparr> pending := [BEGIN], tick := Suc (tick init) \<rparr>))"
      by (rule first) (simp_all add: init_def)
    with r show ?thesis by blast
  qed
  then obtain st where "run env init = run env st" "tagging tgs db0 sid rows st" by blast
  with run_tagging [OF e this(2)] have
    "settled (run env init) = Some (Resolved \<lparr> c_id = sid, c_data = env_snippetData env \<rparr>)"
    "store_ok tgs db0 sid rows (closed (run env init)) []"
    by simp_all
  then show ?thesis
    unfolding c by (simp add: env_def sid_def rows_def)
qed

text \<open>
  C2, as the code has it. Duplicate tag names are not collapsed. For a tag list that is
  not empty and has no duplicates, on a database that satisfies its constraints and a
  store that does not fail, in every schedule: \<^verbatim>\<open>createSnippet\<close> succeeds; the record it
  resolves with carries the tags as they were given; the snippet row is added; the tag
  table keeps its rows and gains exactly one row for each given name that was not in
  it; and the new snippet is linked to exactly the given names, each once. The order of
  the new tag rows and of the links depends on the schedule. With \<^verbatim>\<open>x\<close>, \<^verbatim>\<open>y\<close> on a table
  that has neither, that is two new rows.
\<close>

theorem createSnippet_distinct_tags:
  assumes wf: "wf_db db0"
    and data: "d_title snippetData = Some title" "d_code snippetData = Some code"
      "d_tags snippetData = Some tgs"
    and tgs: "tgs \<noteq> []" "distinct tgs"
    and ok: "\<forall>k. fs k = None"
  shows "fst (createSnippet pick fs now snippetData db0) =
           Some (Resolved \<lparr> c_id = next_rowid (snippets_seq db0) (map s_id (snippets db0)),
                            c_data = snippetData \<rparr>) \<and>
         snippets (snd (createSnippet pick fs now snippetData db0)) =
           snippets db0 @
             [\<lparr> s_id = next_rowid (snippets_seq db0) (map s_id (snippets db0)), s_title = title,
                s_code = code, s_language = or_javascript (d_language snippetData),
                s_created_at = now \<rparr>] \<and>
         take (length (tags db0)) (tags (snd (createSnippet pick fs now snippetData db0))) = tags db0 \<and>
         mset (map snd (tags (snd (createSnippet pick fs now snippetData db0)))) =
           mset (map snd (tags db0)) + mset (filter (\<lambda>t. t \<notin> snd ` set (tags db0)) tgs) \<and>
         mset (linked_names (snd (createSnippet pick fs now snippetData db0))
                 (next_rowid (snippets_seq db0) (map s_id (snippets db0)))) = mset tgs"
proof -
  note r = run_createSnippet_tags [OF wf data tgs ok, of pick now]
  note f = store_okD [OF conjunct2 [OF r]]
  from f(4) have "take (length (tags db0)) (tags (snd (createSnippet pick fs now snippetData db0))) = tags db0"
    by auto
  moreover from f(5) have "mset (map snd (tags (snd (createSnippet pick fs now snippetData db0)))) =
           mset (map snd (tags db0)) + mset (filter (\<lambda>t. t \<notin> snd ` set (tags db0)) tgs)"
    by simp
  moreover from f(6) have "mset (linked_names (snd (createSnippet pick fs now snippetData db0))
                 (next_rowid (snippets_seq db0) (map s_id (snippets db0)))) = mset tgs"
    by simp
  ultimately show ?thesis using conjunct1 [OF r] f(8) by blast
qed

theorem createSnippet_distinct_tags_witness:
  "wf_db empty_db \<and> d_title two_tags_body = Some ''t'' \<and> d_code two_tags_body = Some ''c'' \<and>
   d_tags two_tags_body = Some [''x'', ''y''] \<and> distinct [''x'', ''y''] \<and>
   fst (createSnippet countdown (\<lambda>k. None) 5 two_tags_body empty_db) =
     Some (Resolved \<lparr> c_id = 1, c_data = two_tags_body \<rparr>) \<and>
   tags (snd (createSnippet countdown (\<lambda>k. None) 5 two_tags_body empty_db)) = [(1, ''y''), (2, ''x'')] \<and>
   mset (map snd (tags (snd (createSnippet countdown (\<lambda>k. None) 5 two_tags_body empty_db)))) =
     mset [''x'', ''y''] \<and>
   mset (linked_names (snd (createSnippet countdown (\<lambda>k. None) 5 two_tags_body empty_db)) 1) =
     mset [''x'', ''y'']"
proof -
  have wf: "wf_db empty_db" by code_simp
  have d: "d_title two_tags_body = Some ''t''" "d_code two_tags_body = Some ''c''"
    "d_tags two_tags_body = Some [''x'', ''y'']"
    by (simp_all add: two_tags_body_def)
  have n: "[''x'', ''y''] \<noteq> []" "distinct [''x'', ''y'']" by simp_all
  have ok: "\<forall>k. (\<lambda>k. None :: sqlerr option) k = None" by simp
  have id: "next_rowid (snippets_seq empty_db) (map s_id (snippets empty_db)) = 1" by code_simp
  have old: "tags empty_db = []" by (simp add: empty_db_def)
  have t: "tags (snd (createSnippet countdown (\<lambda>k. None) 5 two_tags_body empty_db)) = [(1, ''y''), (2, ''x'')]"
    by code_simp
  note inst = createSnippet_distinct_tags [OF wf d n ok, of countdown 5, unfolded id old]
  from inst have 1: "fst (createSnippet countdown (\<lambda>k. None) 5 two_tags_body empty_db) =
     Some (Resolved \<lparr> c_id = 1, c_data = two_tags_body \<rparr>)" by blast
  from inst have 2: "mset (map snd (tags (snd (createSnippet countdown (\<lambda>k. None) 5 two_tags_body empty_db)))) =
     mset [''x'', ''y'']"
    by simp
  from inst have 3: "mset (linked_names (snd (createSnippet countdown (\<lambda>k. None) 5 two_tags_body empty_db)) 1) =
     mset [''x'', ''y'']"
    by blast
  show ?thesis
    by (intro conjI) (fact wf d n 1 2 3 t)+
qed

text \<open>
  C2 as stated fails: with the tags \<^verbatim>\<open>x\<close>, \<^verbatim>\<open>x\<close>, \<^verbatim>\<open>y\<close> both lookups of \<^verbatim>\<open>x\<close> find the same
  row, the second link of \<^verbatim>\<open>x\<close> violates the primary key of \<^verbatim>\<open>snippet_tags\<close>, and the call
  is rejected with that error: no record. So it is in each of the three schedules.
\<close>

theorem duplicate_tag_rejects:
  "fst (createSnippet in_order (\<lambda>k. None) 5 duplicate_tags_body empty_db) =
     Some (Rejected (SQLITE_CONSTRAINT
        ''UNIQUE constraint failed: snippet_tags.snippet_id, snippet_tags.tag_id'')) \<and>
   fst (createSnippet insert_before_begin (\<lambda>k. None) 5 duplicate_tags_body empty_db) =
     Some (Rejected (SQLITE_CONSTRAINT
        ''UNIQUE constraint failed: snippet_tags.snippet_id, snippet_tags.tag_id'')) \<and>
   fst (createSnippet countdown (\<lambda>k. None) 5 duplicate_tags_body empty_db) =
     Some (Rejected (SQLITE_CONSTRAINT
        ''UNIQUE constraint failed: snippet_tags.snippet_id, snippet_tags.tag_id''))"
  by code_simp

subsection \<open>The constraints of the store are kept\<close>

text \<open>The empty database satisfies the constraints, and \<^verbatim>\<open>createSnippet\<close> and
  \<^verbatim>\<open>deleteSnippet\<close> keep them, whatever their arguments, whatever fails and whatever the
  schedule.\<close>

lemma wf_empty_db: "wf_db empty_db"
  by (simp add: wf_db_def empty_db_def)

lemma insert_snippet_Inr:
  assumes "insert_snippet f now t c l d = Inr (i, d')"
  shows "i = next_rowid (snippets_seq d) (map s_id (snippets d)) \<and>
         snippets d' = snippets d @
           [\<lparr> s_id = i, s_title = the t, s_code = the c, s_language = l, s_created_at = now \<rparr>] \<and>
         snippets_seq d' = i \<and> tags d' = tags d \<and> tags_seq d' = tags_seq d \<and>
         snippet_tags d' = snippet_tags d"
proof (cases f)
  case (Some e)
  with assms show ?thesis by (simp add: insert_snippet_def)
next
  case None
  show ?thesis
  proof (cases t)
    case None
    with \<open>f = None\<close> assms show ?thesis by (simp add: insert_snippet_def)
  next
    case (Some title)
    show ?thesis
    proof (cases c)
      case None
      with \<open>f = None\<close> Some assms show ?thesis by (simp add: insert_snippet_def)
    next
      case (Some code)
      with \<open>f = None\<close> \<open>t = Some title\<close> assms show ?thesis
        by (auto simp: insert_snippet_def Let_def)
    qed
  qed
qed

lemma wf_insert_snippet:
  assumes "wf_db d" and "insert_snippet f now t c l d = Inr (i, d')"
  shows "wf_db d' \<and> i = snippets_seq d'"
proof -
  note r = insert_snippet_Inr [OF assms(2)]
  have lt: "snippets_seq d < i" "\<forall>x \<in> set (snippets d). s_id x < i"
    using r next_rowid_fresh(1) [of "snippets_seq d" "map s_id (snippets d)"]
      next_rowid_fresh(2) [of _ "map s_id (snippets d)" "snippets_seq d"]
    by auto
  have "wf_db d'"
    unfolding wf_db_def list_all_iff
  proof (intro conjI)
    show "distinct (map s_id (snippets d'))"
      using assms(1) r lt(2) by (auto simp: wf_db_def)
    show "\<forall>s \<in> set (snippets d'). s_id s \<le> snippets_seq d'"
      using r lt(2) by (auto simp: less_imp_le)
    show "distinct (map fst (tags d'))" "distinct (map snd (tags d'))" "distinct (snippet_tags d')"
      using assms(1) r by (simp_all add: wf_db_def)
    show "\<forall>t \<in> set (tags d'). fst t \<le> tags_seq d'"
      using assms(1) r by (simp add: wf_db_def list_all_iff)
    show "\<forall>l \<in> set (snippet_tags d'). fst l \<le> snippets_seq d'"
    proof
      fix l assume "l \<in> set (snippet_tags d')"
      with assms(1) r have "fst l \<le> snippets_seq d" by (simp add: wf_db_def list_all_iff)
      with lt(1) r show "fst l \<le> snippets_seq d'" by simp
    qed
  qed
  with r show ?thesis by simp
qed

lemma wf_insert_or_ignore_tag: "wf_db d \<Longrightarrow> wf_db (insert_or_ignore_tag n d)"
proof -
  assume wf: "wf_db d"
  let ?i = "next_rowid (tags_seq d) (map fst (tags d))"
  have "\<forall>x \<in> set (tags d). fst x < ?i"
    using next_rowid_fresh(2) [of _ "map fst (tags d)" "tags_seq d"] by auto
  with wf show ?thesis
    unfolding wf_db_def list_all_iff insert_or_ignore_tag_def Let_def
    by (auto simp: less_imp_le)
qed

lemma wf_link_tag:
  assumes "wf_db d" and "a \<le> snippets_seq d" and "link_tag c f a b d = Inr d'"
  shows "wf_db d' \<and> snippets_seq d' = snippets_seq d"
proof -
  from assms(3) have "d' = d\<lparr> snippet_tags := snippet_tags d @ [(a, b)] \<rparr>"
    "(a, b) \<notin> set (snippet_tags d)"
    by (auto simp: link_tag_def split: option.splits if_splits)
  with assms(1,2) show ?thesis
    unfolding wf_db_def list_all_iff by auto
qed

lemma wf_deleteSnippet: "wf_db d \<Longrightarrow> wf_db (snd (deleteSnippet rowid_of err ident d))"
  unfolding wf_db_def list_all_iff
  by (auto simp: deleteSnippet_def delete_snippet_rows_def createConnection_def distinct_map_filter
           split: option.splits)

lemma ctl_only:
  "list_all ctl_stmt ps \<Longrightarrow> InsertSnippet \<notin> set ps"
  "list_all ctl_stmt ps \<Longrightarrow> filter tag_stmt ps = []"
proof (induction ps)
  case Nil
  {
    case 1 show ?case by simp
  next
    case 2 show ?case by simp
  }
next
  case (Cons s ps)
  {
    case 1 with Cons(1) show ?case by (cases s) simp_all
  next
    case 2 with Cons(2) show ?case by (cases s) simp_all
  }
qed

text \<open>While tag statements are pending: a failed one, the outcome of a lookup, and a link
  that went in.\<close>

lemma consistent_checkCompletion:
  assumes "wf_db (work st)" "wf_db (saved st)"
    and "list_all (\<lambda>s. s = BEGIN \<or> tag_stmt s) (pending st)"
    and "list_all (links_to (snippetId st)) (pending st)"
    and "snippetId st \<le> snippets_seq (work st)"
    and "processedTags st + length (filter tag_stmt (pending st)) = length (tag_list (env_snippetData env))"
  shows "consistent env (checkCompletion env st)"
proof (cases "processedTags st = length (tag_list (env_snippetData env))")
  case True
  with assms(6) have none: "filter tag_stmt (pending st) = []" by simp
  have ctl: "list_all ctl_stmt (pending st)" "InsertSnippet \<notin> set (pending st)"
    using assms(3) none by (auto simp: list_all_iff filter_empty_conv)
  show ?thesis
    using True assms(1,2) none ctl
    by (cases "tagErrors st")
       (auto simp: consistent_def checkCompletion_def settle_def split: option.splits)
next
  case False
  with assms(6) have some: "filter tag_stmt (pending st) \<noteq> []" by auto
  have "InsertSnippet \<notin> set (pending st)" using assms(3) by (auto simp: list_all_iff)
  with False assms some show ?thesis
    by (simp add: consistent_def checkCompletion_def)
qed

lemma consistent_tag_failed:
  assumes "wf_db (work st)" "wf_db (saved st)"
    and "list_all (\<lambda>s. s = BEGIN \<or> tag_stmt s) (pending st)"
    and "list_all (links_to (snippetId st)) (pending st)"
    and "snippetId st \<le> snippets_seq (work st)"
    and "Suc (processedTags st + length (filter tag_stmt (pending st))) = length (tag_list (env_snippetData env))"
  shows "consistent env (tag_failed env err st)"
  unfolding tag_failed_def
  by (rule consistent_checkCompletion) (use assms in simp_all)

lemma step_consistent:
  assumes c: "consistent env st" and p: "pending st = A @ s # B"
  shows "consistent env (step env s (st\<lparr> pending := A @ B, tick := k \<rparr>))"
proof -
  from c have wf: "wf_db (work st)" "wf_db (saved st)" by (simp_all add: consistent_def)
  show ?thesis
  proof (cases "InsertSnippet \<in> set (pending st)")
    case True
    with c p have one: "length (filter (\<lambda>s. s = InsertSnippet) (A @ s # B)) = 1"
      and all: "list_all (\<lambda>s. s = BEGIN \<or> s = InsertSnippet) (A @ s # B)"
      by (simp_all add: consistent_def)
    from all have "s = BEGIN \<or> s = InsertSnippet" by simp
    then show ?thesis
    proof
      assume s: "s = BEGIN"
      with one have one': "length (filter (\<lambda>s. s = InsertSnippet) (A @ B)) = 1" by simp
      then have "filter (\<lambda>s. s = InsertSnippet) (A @ B) \<noteq> []" by auto
      then have still: "InsertSnippet \<in> set (A @ B)" by (auto simp: filter_empty_conv)
      from all have all': "list_all (\<lambda>s. s = BEGIN \<or> s = InsertSnippet) (A @ B)" by simp
      have "consistent env (st\<lparr> pending := A @ B, tick := k, saved := work st, in_tx := True \<rparr>)"
        using wf still one' all' by (simp add: consistent_def del: set_append filter_append list_all_append)
      moreover have "consistent env (error_event e (st\<lparr> pending := A @ B, tick := k \<rparr>))" for e
        using wf by (simp add: consistent_def error_event_def)
      ultimately show ?thesis using s by simp
    next
      assume s: "s = InsertSnippet"
      with one have "filter (\<lambda>s. s = InsertSnippet) (A @ B) = []" by simp
      then have no: "InsertSnippet \<notin> set (A @ B)" by (auto simp: filter_empty_conv)
      with all have b: "list_all (\<lambda>s. s = BEGIN) (A @ B)" by (auto simp: list_all_iff)
      then have eq: "x = BEGIN" if "x \<in> set A \<or> x \<in> set B" for x
        using that by (auto simp: list_all_iff)
      have ctl: "list_all ctl_stmt (A @ B)" "filter tag_stmt (A @ B) = []"
        "list_all (\<lambda>s. s = BEGIN \<or> tag_stmt s) (A @ B)" "list_all (links_to i) (A @ B)" for i
        by (auto simp: list_all_iff filter_empty_conv dest: eq [OF disjI1] eq [OF disjI2])
      show ?thesis
      proof (cases "insert_snippet (env_faults env (clock st)) (env_now env)
             (d_title (env_snippetData env)) (d_code (env_snippetData env))
             (or_javascript (d_language (env_snippetData env))) (work st)")
        case (Inl e)
        with s wf no ctl show ?thesis
          by (auto simp: consistent_def settle_def split: option.splits)
      next
        case (Inr r)
        obtain i d where r: "r = (i, d)" by (cases r)
        from wf_insert_snippet [OF wf(1) Inr [unfolded r]] have d: "wf_db d" "i = snippets_seq d"
          by simp_all
        show ?thesis
        proof (cases "tag_list (env_snippetData env) = []")
          case True
          with s Inr r wf d no ctl show ?thesis
            by (auto simp: consistent_def settle_def split: option.splits)
        next
          case False
          have "InsertSnippet \<notin> set (A @ B @ map InsertTag (tag_list (env_snippetData env)))"
            using no by auto
          moreover have "filter tag_stmt (A @ B @ map InsertTag (tag_list (env_snippetData env))) \<noteq> []"
            using False by (simp add: filter_tag_stmt_inserts)
          moreover have "list_all (\<lambda>s. s = BEGIN \<or> tag_stmt s) (A @ B @ map InsertTag (tag_list (env_snippetData env)))"
            "list_all (links_to i) (A @ B @ map InsertTag (tag_list (env_snippetData env)))"
            using ctl(3) ctl(4) [of i] by (auto simp: list_all_iff)
          moreover have "length (filter tag_stmt (A @ B @ map InsertTag (tag_list (env_snippetData env))))
                = length (tag_list (env_snippetData env))"
            using ctl(2) by (simp add: filter_tag_stmt_inserts)
          ultimately show ?thesis
            using s Inr r wf d False
            by (simp add: consistent_def del: set_append filter_append list_all_append)
        qed
      qed
    qed
  next
    case False
    note noins = this
    show ?thesis
    proof (cases "filter tag_stmt (pending st) \<noteq> []")
      case True
      with c noins p have all: "list_all (\<lambda>s. s = BEGIN \<or> tag_stmt s) (A @ s # B)"
        and links: "list_all (links_to (snippetId st)) (A @ s # B)"
        and sid: "snippetId st \<le> snippets_seq (work st)"
        and count: "processedTags st + length (filter tag_stmt (A @ s # B)) =
             length (tag_list (env_snippetData env))"
        by (simp_all add: consistent_def)
      from all links have rest: "list_all (\<lambda>s. s = BEGIN \<or> tag_stmt s) (A @ B)"
        "list_all (links_to (snippetId st)) (A @ B)" by simp_all
      from rest(1) have noins': "InsertSnippet \<notin> set (A @ B)" by (auto simp: list_all_iff)
      have failed: "consistent env (tag_failed env err (st\<lparr> pending := A @ B, tick := k, clock := Suc (clock st) \<rparr>))"
        if "tag_stmt s" for err
        by (rule consistent_tag_failed) (use wf rest sid count that in simp_all)
      show ?thesis
      proof (cases s)
        case BEGIN
        from True p BEGIN have some: "filter tag_stmt (A @ B) \<noteq> []" by simp
        from count BEGIN have "processedTags st + length (filter tag_stmt (A @ B)) =
             length (tag_list (env_snippetData env))" by simp
        then have "consistent env (st\<lparr> pending := A @ B, tick := k, saved := work st, in_tx := True \<rparr>)"
          using wf rest sid noins' some
          by (simp add: consistent_def del: set_append filter_append list_all_append)
        moreover have "consistent env (error_event e (st\<lparr> pending := A @ B, tick := k \<rparr>))" for e
          using wf by (simp add: consistent_def error_event_def)
        ultimately show ?thesis using BEGIN by simp
      next
        case InsertSnippet
        with all show ?thesis by simp
      next
        case (InsertTag t)
        show ?thesis
        proof (cases "env_faults env (clock st)")
          case None
          have "wf_db (insert_or_ignore_tag t (work st))" using wf(1) by (rule wf_insert_or_ignore_tag)
          then show ?thesis
            using InsertTag None wf(2) rest sid count noins'
            by (simp add: insert_tag_def consistent_def frame_insert_or_ignore_tag)
        next
          case (Some e)
          with InsertTag failed [of e] show ?thesis by (simp add: insert_tag_def)
        qed
      next
        case (SelectTag t)
        show ?thesis
        proof (cases "select_tag (env_faults env (clock st)) t (work st)")
          case (Inl e)
          with SelectTag failed [of e] show ?thesis by simp
        next
          case (Inr r)
          show ?thesis
          proof (cases r)
            case None
            with SelectTag Inr wf show ?thesis by (simp add: consistent_def)
          next
            case (Some b)
            with SelectTag Inr wf rest sid count noins' show ?thesis
              by (simp add: consistent_def)
          qed
        qed
      next
        case (LinkTag a b)
        with links have a: "a = snippetId st" by simp
        show ?thesis
        proof (cases "link_tag (env_conn env) (env_faults env (clock st)) a b (work st)")
          case (Inl e)
          with LinkTag failed [of e] show ?thesis by simp
        next
          case (Inr d)
          from wf_link_tag [OF wf(1) _ Inr] a sid have d: "wf_db d" "snippets_seq d = snippets_seq (work st)"
            by simp_all
          have "consistent env (checkCompletion env
                  (st\<lparr> pending := A @ B, tick := k, work := d, processedTags := Suc (processedTags st),
                       clock := Suc (clock st) \<rparr>))"
            by (rule consistent_checkCompletion) (use wf d rest sid count LinkTag in simp_all)
          with LinkTag Inr show ?thesis by simp
        qed
      next
        case COMMIT
        with all show ?thesis by simp
      next
        case ROLLBACK
        with all show ?thesis by simp
      qed
    next
      case False
      with c noins p have ctl: "list_all ctl_stmt (A @ s # B)" by (simp add: consistent_def)
      then have rest: "list_all ctl_stmt (A @ B)" "ctl_stmt s" by simp_all
      have no: "InsertSnippet \<notin> set (A @ B)" "filter tag_stmt (A @ B) = []"
        by (fact ctl_only(1) [OF rest(1)] ctl_only(2) [OF rest(1)])+
      from rest(2) wf no rest(1) show ?thesis
        by (cases s) (auto simp: consistent_def error_event_def)
    qed
  qed
qed

lemma run_consistent: "consistent env st \<Longrightarrow> consistent env (run env st)"
proof (induction env st rule: run.induct)
  case (1 env st)
  show ?case
  proof (cases "pending st = []")
    case True
    with "1.prems" show ?thesis by (simp add: run_done)
  next
    case False
    define i where "i = chosen env st"
    have i: "i < length (pending st)" unfolding i_def using False by (rule chosen_less)
    have p: "pending st = take i (pending st) @ pending st ! i # drop (Suc i) (pending st)"
      using i by (rule id_take_nth_drop)
    from step_consistent [OF "1.prems" p, of "Suc (tick st)"]
    have "consistent env (step env (pending st ! chosen env st)
            (st\<lparr> pending := others (chosen env st) (pending st), tick := Suc (tick st) \<rparr>))"
      by (simp add: others_def i_def)
    from "1.IH" [OF False this] show ?thesis
      using False by (simp add: run_next)
  qed
qed

lemma wf_createSnippet:
  assumes "wf_db db0"
  shows "wf_db (snd (createSnippet pick fs now snippetData db0))"
proof -
  define env where "env = \<lparr> env_pick = pick, env_faults = fs, env_conn = createConnection, env_now = now,
                     env_snippetData = snippetData \<rparr>"
  define init where "init = \<lparr> work = db0, saved = db0, in_tx = False, pending = [BEGIN, InsertSnippet],
                     snippetId = 0, processedTags = 0, tagErrors = [], settled = None, clock = 0,
                     tick = 0, uncaught = None \<rparr>"
  have "consistent env init"
    using assms by (simp add: consistent_def init_def)
  then have "consistent env (run env init)" by (rule run_consistent)
  then have "wf_db (closed (run env init))"
    by (simp add: consistent_def closed_def)
  then show ?thesis
    by (simp add: createSnippet_def env_def init_def Let_def)
qed

subsection \<open>The example databases\<close>

text \<open>The example databases are results of \<^verbatim>\<open>createSnippet\<close> calls on the empty database.\<close>

lemma loop_db_created:
  "createSnippet in_order (\<lambda>k. None) 10
     \<lparr> d_title = Some ''Loop'', d_code = Some ''while (true) {}'', d_language = None,
       d_tags = Some [''python'', ''basics''] \<rparr> empty_db =
   (Some (Resolved \<lparr> c_id = 1,
       c_data = \<lparr> d_title = Some ''Loop'', d_code = Some ''while (true) {}'', d_language = None,
                  d_tags = Some [''python'', ''basics''] \<rparr> \<rparr>), loop_db)"
  by code_simp

lemma comma_db_created:
  "createSnippet in_order (\<lambda>k. None) 10
     \<lparr> d_title = Some ''Loop'', d_code = Some ''while (true) {}'', d_language = None,
       d_tags = Some [''a,b'', ''a''] \<rparr> empty_db =
   (Some (Resolved \<lparr> c_id = 1,
       c_data = \<lparr> d_title = Some ''Loop'', d_code = Some ''while (true) {}'', d_language = None,
                  d_tags = Some [''a,b'', ''a''] \<rparr> \<rparr>), comma_db)"
  by code_simp

lemma wildcard_db_created:
  "createSnippet in_order (\<lambda>k. None) 10
     \<lparr> d_title = Some ''Loop'', d_code = Some ''while (true) {}'', d_language = None,
       d_tags = None \<rparr> empty_db =
   (Some (Resolved \<lparr> c_id = 1,
       c_data = \<lparr> d_title = Some ''Loop'', d_code = Some ''while (true) {}'', d_language = None,
                  d_tags = Some [] \<rparr> \<rparr>), wildcard_db)"
  by code_simp

lemma lone_db_created:
  "snd (createSnippet in_order (\<lambda>k. None) 20
     \<lparr> d_title = Some ''Array'', d_code = Some ''[1, 2].length'', d_language = Some ''javascript'',
       d_tags = Some [] \<rparr> loop_db) = lone_db"
  by code_simp


end
